theory Spec2Isabelle
  imports Complex_Main
begin

section \<open>JavaScript numbers\<close>

text \<open>
  The library computes with JavaScript numbers, the values of the binary64 format: the
  finite values with their two zeros, the two infinities and \<open>NaN\<close>. A finite value is
  the real number it denotes, \<open>Fin 0\<close> being the positive zero; the negative zero is a
  value of its own.

  What \<open>+\<close>, \<open>-\<close>, \<open>*\<close>, \<open>/\<close> and \<open>Math.pow\<close> return depends on the rounding, the
  overflow and the underflow of binary64, and for \<open>Math.pow\<close> on the implementation,
  which the language allows to approximate. These operations are therefore parameters:
  every function of the library takes the arithmetic \<open>A\<close> as its first argument, and a
  statement in which \<open>A\<close> is a variable holds for every arithmetic, that of the language
  among them. The comparisons, the change of sign, \<open>Math.abs\<close>, \<open>Math.round\<close>,
  \<open>toFixed\<close> and the test for truthiness involve no rounding of binary64 and are
  defined below. Where a statement is about a formula on real numbers, it is made for
  the ideal arithmetic, which computes on the real numbers without rounding.

  The cash flows given to IRR and XIRR are finite numbers and the dates are valid dates;
  the cap of IRR and the guess of XIRR may be any number.
\<close>

datatype number = Fin real | NegZero | PosInf | NegInf | NaN

text \<open>The real number that a finite value denotes.\<close>

fun real_of :: "number \<Rightarrow> real" where
  "real_of (Fin r) = r"
| "real_of v = 0"

text \<open>The comparison \<open>a > b\<close>: false as soon as one side is \<open>NaN\<close>.\<close>

fun js_gt :: "number \<Rightarrow> number \<Rightarrow> bool" where
  "js_gt NaN b = False"
| "js_gt a NaN = False"
| "js_gt NegInf b = False"
| "js_gt a PosInf = False"
| "js_gt PosInf b = True"
| "js_gt a NegInf = True"
| "js_gt a b = (real_of b < real_of a)"

definition js_lt :: "number \<Rightarrow> number \<Rightarrow> bool" where
  "js_lt a b = js_gt b a"

text \<open>The comparison \<open>a <= b\<close>, which is not the negation of \<open>a > b\<close>.\<close>

fun js_le :: "number \<Rightarrow> number \<Rightarrow> bool" where
  "js_le NaN b = False"
| "js_le a NaN = False"
| "js_le NegInf b = True"
| "js_le a PosInf = True"
| "js_le PosInf b = False"
| "js_le a NegInf = False"
| "js_le a b = (real_of a \<le> real_of b)"

text \<open>The unary minus changes the sign, also that of a zero.\<close>

fun js_neg :: "number \<Rightarrow> number" where
  "js_neg (Fin a) = (if a = 0 then NegZero else Fin (- a))"
| "js_neg NegZero = Fin 0"
| "js_neg PosInf = NegInf"
| "js_neg NegInf = PosInf"
| "js_neg NaN = NaN"

fun Math_abs :: "number \<Rightarrow> number" where
  "Math_abs (Fin a) = Fin \<bar>a\<bar>"
| "Math_abs NegZero = Fin 0"
| "Math_abs NegInf = PosInf"
| "Math_abs v = v"

text \<open>
  \<open>Math.round\<close>: the nearest integer, a tie going up; the result is the negative zero
  for an argument from \<open>-0.5\<close> up to the negative zero.
\<close>

fun Math_round :: "number \<Rightarrow> number" where
  "Math_round (Fin y) = (if - 1 / 2 \<le> y \<and> y < 0 then NegZero else Fin (of_int \<lfloor>y + 1 / 2\<rfloor>))"
| "Math_round v = v"

text \<open>A number is truthy unless it is a zero or \<open>NaN\<close>.\<close>

fun truthy :: "number \<Rightarrow> bool" where
  "truthy (Fin a) = (a \<noteq> 0)"
| "truthy NegZero = False"
| "truthy NaN = False"
| "truthy v = True"

text \<open>
  \<open>xs[i]\<close>: beyond the end of the array the value is undefined, which is \<open>NaN\<close> in
  arithmetic and false in every comparison. \<open>item\<close> reads an array of cash flows,
  \<open>entry\<close> an array of numbers that the library has computed.
\<close>

definition item :: "real list \<Rightarrow> nat \<Rightarrow> number" where
  "item xs i = (if i < length xs then Fin (xs ! i) else NaN)"

definition entry :: "number list \<Rightarrow> nat \<Rightarrow> number" where
  "entry xs i = (if i < length xs then xs ! i else NaN)"

text \<open>
  \<open>x.toFixed(f)\<close> yields a string. Two such strings are compared and nothing else is
  done with them, so the string is modelled by what determines it: for a finite \<open>x\<close>
  below \<open>10^21\<close> in size, the sign and the integer \<open>n\<close> for which \<open>n / 10^f\<close> is
  nearest to \<open>|x|\<close> (the larger one on a tie), whose digits the string shows; otherwise
  the number itself, which the string then spells out in full.
\<close>

datatype fixed = Digits bool nat | Spelled number

fun toFixed :: "nat \<Rightarrow> number \<Rightarrow> fixed" where
  "toFixed f (Fin x) =
     (if 10 ^ 21 \<le> \<bar>x\<bar> then Spelled (Fin x)
      else Digits (x < 0) (nat \<lfloor>\<bar>x\<bar> * 10 ^ f + 1 / 2\<rfloor>))"
| "toFixed f NegZero = Digits False 0"
| "toFixed f v = Spelled v"

section \<open>The arithmetic\<close>

text \<open>
  The four operations that round: \<open>a + b\<close>, \<open>a * b\<close>, \<open>a / b\<close> and \<open>Math.pow(a, b)\<close>.
  The difference \<open>a - b\<close> is \<open>a + (-b)\<close> in binary64.
\<close>

record arith =
  fadd :: "number \<Rightarrow> number \<Rightarrow> number"
  fmul :: "number \<Rightarrow> number \<Rightarrow> number"
  fdiv :: "number \<Rightarrow> number \<Rightarrow> number"
  fpow :: "number \<Rightarrow> number \<Rightarrow> number"

definition fsub :: "arith \<Rightarrow> number \<Rightarrow> number \<Rightarrow> number" where
  "fsub A a b = fadd A a (js_neg b)"

text \<open>
  The literal \<open>0.01\<close> denotes the binary64 value nearest to one hundredth, which is
  \<open>5764607523034235 / 2^59\<close>. The other literals of the two functions, \<open>0\<close>, \<open>1\<close>,
  \<open>-1\<close>, \<open>100\<close> and the product \<open>1000 * 3600 * 24 * 365\<close>, are integers that
  binary64 represents exactly.
\<close>

definition cent :: number where
  "cent = Fin (5764607523034235 / 2 ^ 59)"

text \<open>
  The ideal arithmetic computes on the real numbers: no rounding, no overflow, no
  underflow, and one zero (the negative zero counts as zero). \<open>Infinity\<close>,
  \<open>-Infinity\<close> and \<open>NaN\<close> arise and propagate as they do in the language.
\<close>

fun ideal_add :: "number \<Rightarrow> number \<Rightarrow> number" where
  "ideal_add NaN b = NaN"
| "ideal_add a NaN = NaN"
| "ideal_add PosInf NegInf = NaN"
| "ideal_add NegInf PosInf = NaN"
| "ideal_add PosInf b = PosInf"
| "ideal_add a PosInf = PosInf"
| "ideal_add NegInf b = NegInf"
| "ideal_add a NegInf = NegInf"
| "ideal_add a b = Fin (real_of a + real_of b)"

fun ideal_mul :: "number \<Rightarrow> number \<Rightarrow> number" where
  "ideal_mul NaN b = NaN"
| "ideal_mul a NaN = NaN"
| "ideal_mul PosInf PosInf = PosInf"
| "ideal_mul NegInf NegInf = PosInf"
| "ideal_mul PosInf NegInf = NegInf"
| "ideal_mul NegInf PosInf = NegInf"
| "ideal_mul PosInf b = (if real_of b = 0 then NaN else if 0 < real_of b then PosInf else NegInf)"
| "ideal_mul NegInf b = (if real_of b = 0 then NaN else if 0 < real_of b then NegInf else PosInf)"
| "ideal_mul a PosInf = (if real_of a = 0 then NaN else if 0 < real_of a then PosInf else NegInf)"
| "ideal_mul a NegInf = (if real_of a = 0 then NaN else if 0 < real_of a then NegInf else PosInf)"
| "ideal_mul a b = Fin (real_of a * real_of b)"

text \<open>Division; a zero divisor counts as the positive zero.\<close>

fun ideal_div :: "number \<Rightarrow> number \<Rightarrow> number" where
  "ideal_div NaN b = NaN"
| "ideal_div a NaN = NaN"
| "ideal_div PosInf PosInf = NaN"
| "ideal_div PosInf NegInf = NaN"
| "ideal_div NegInf PosInf = NaN"
| "ideal_div NegInf NegInf = NaN"
| "ideal_div PosInf b = (if 0 \<le> real_of b then PosInf else NegInf)"
| "ideal_div NegInf b = (if 0 \<le> real_of b then NegInf else PosInf)"
| "ideal_div a PosInf = Fin 0"
| "ideal_div a NegInf = Fin 0"
| "ideal_div a b =
     (if real_of b \<noteq> 0 then Fin (real_of a / real_of b)
      else if 0 < real_of a then PosInf else if real_of a < 0 then NegInf else NaN)"

text \<open>
  \<open>Math.pow\<close>, case by case as the language defines it: a \<open>NaN\<close> exponent first, then
  a zero exponent, then the base. A negative base has a power only for an integral
  exponent.
\<close>

definition odd_integral :: "real \<Rightarrow> bool" where
  "odd_integral e = (of_int \<lfloor>e\<rfloor> = e \<and> odd \<lfloor>e\<rfloor>)"

fun ideal_pow :: "number \<Rightarrow> number \<Rightarrow> number" where
  "ideal_pow b NaN = NaN"
| "ideal_pow b PosInf =
     (case b of
        NaN \<Rightarrow> NaN
      | PosInf \<Rightarrow> PosInf
      | NegInf \<Rightarrow> PosInf
      | _ \<Rightarrow>
          if real_of b = 0 then Fin 0
          else if 1 < \<bar>real_of b\<bar> then PosInf else if \<bar>real_of b\<bar> = 1 then NaN else Fin 0)"
| "ideal_pow b NegInf =
     (case b of
        NaN \<Rightarrow> NaN
      | PosInf \<Rightarrow> Fin 0
      | NegInf \<Rightarrow> Fin 0
      | _ \<Rightarrow>
          if real_of b = 0 then PosInf
          else if 1 < \<bar>real_of b\<bar> then Fin 0 else if \<bar>real_of b\<bar> = 1 then NaN else PosInf)"
| "ideal_pow b e =
     (if real_of e = 0 then Fin 1
      else case b of
        NaN \<Rightarrow> NaN
      | PosInf \<Rightarrow> if 0 < real_of e then PosInf else Fin 0
      | NegInf \<Rightarrow>
          if 0 < real_of e then (if odd_integral (real_of e) then NegInf else PosInf) else Fin 0
      | _ \<Rightarrow>
          if real_of b = 0 then (if 0 < real_of e then Fin 0 else PosInf)
          else if 0 < real_of b then Fin (real_of b powr real_of e)
          else if of_int \<lfloor>real_of e\<rfloor> = real_of e then Fin (real_of b powi \<lfloor>real_of e\<rfloor>)
          else NaN)"

definition ideal :: arith where
  "ideal = \<lparr>fadd = ideal_add, fmul = ideal_mul, fdiv = ideal_div, fpow = ideal_pow\<rparr>"

section \<open>Errors\<close>

text \<open>The source throws \<open>new Error(message)\<close>; the messages are the source's.\<close>

datatype error = Error string

definition IRR_sign_message :: string where
  "IRR_sign_message = ''IRR requires at least one positive value and one negative value''"

definition IRR_tries_message :: string where
  "IRR_tries_message = ''IRR can't find a result''"

definition XIRR_length_message :: string where
  "XIRR_length_message = ''Number of cash flows and dates should match''"

definition XIRR_sign_message :: string where
  "XIRR_sign_message = ''XIRR requires at least one positive value and one negative value''"

text \<open>
  The two kinds of failure the specification names: \<open>InvalidInput\<close> for the three
  validation errors, \<open>ConvergenceFailure\<close> for the exhausted iteration counter of IRR.
\<close>

definition InvalidInput :: "error \<Rightarrow> bool" where
  "InvalidInput e =
     (e = Error IRR_sign_message \<or> e = Error XIRR_length_message \<or> e = Error XIRR_sign_message)"

definition ConvergenceFailure :: "error \<Rightarrow> bool" where
  "ConvergenceFailure e = (e = Error IRR_tries_message)"

section \<open>The sign check of a cash-flow series\<close>

text \<open>
  \<open>let positive, negative; cashFlows.forEach(function (value) { if (value > 0) positive =
  true; if (value < 0) negative = true; })\<close>: the two flags start undefined, which is
  falsy, and are only ever set.
\<close>

definition scan_signs :: "real list \<Rightarrow> bool \<times> bool" where
  "scan_signs cashFlows =
     fold (\<lambda>value (positive, negative).
             (if value > 0 then True else positive, if value < 0 then True else negative))
          cashFlows (False, False)"

section \<open>IRR\<close>

text \<open>
  The state of one call of IRR is the captured variable \<open>numberOfTries\<close>. The field
  \<open>evaluations\<close> is auxiliary: it counts the calls of the inner function \<open>npv\<close> that
  returned a value, and nothing reads it.
\<close>

record irr_state =
  numberOfTries :: nat
  evaluations :: nat

text \<open>
  \<open>numberOfTries++\<close> on a binary64 number that holds an integer: below \<open>2^53\<close> the
  successor is exact, and at \<open>2^53\<close> the sum \<open>2^53 + 1\<close> is rounded back to
  \<open>2^53\<close>, so the counter stays there.
\<close>

definition max_count :: nat where
  "max_count = 2 ^ 53"

definition increment :: "nat \<Rightarrow> nat" where
  "increment n = (if n < max_count then n + 1 else n)"

text \<open>The arithmetic of the inner function \<open>npv\<close>.\<close>

definition npv_sum :: "arith \<Rightarrow> real list \<Rightarrow> number \<Rightarrow> number" where
  "npv_sum A cashFlows rate =
     (let rrate = fadd A (Fin 1) (fdiv A rate (Fin 100)) in
      fold (\<lambda>i npv. fadd A npv (fdiv A (item cashFlows i) (fpow A rrate (Fin (real i)))))
           [1 ..< length cashFlows]
           (item cashFlows 0))"

definition npv ::
  "arith \<Rightarrow> number \<Rightarrow> real list \<Rightarrow> number \<Rightarrow> irr_state \<Rightarrow> (error + number) \<times> irr_state" where
  "npv A cfs cashFlows rate st =
     (let st1 = st\<lparr>numberOfTries := increment (numberOfTries st)\<rparr> in
      if js_gt (Fin (real (numberOfTries st1))) cfs
      then (Inl (Error IRR_tries_message), st1)
      else (Inr (npv_sum A cashFlows rate), st1\<lparr>evaluations := evaluations st1 + 1\<rparr>))"

text \<open>
  \<open>seekZero\<close> runs two loops over a function that may throw and that has a state of its
  own. Neither loop has a bound of its own, so each is a partial function: \<open>None\<close> is a
  loop that never ends.
\<close>

partial_function (option) ascend ::
  "arith \<Rightarrow> (number \<Rightarrow> 's \<Rightarrow> (error + number) \<times> 's) \<Rightarrow> number \<Rightarrow> 's
   \<Rightarrow> ((error + number) \<times> 's) option" where
  "ascend A fn x s =
     (case fn x s of
        (Inl e, s') \<Rightarrow> Some (Inl e, s')
      | (Inr v, s') \<Rightarrow>
          if js_gt v (Fin 0) then ascend A fn (fadd A x (Fin 1)) s' else Some (Inr x, s'))"

partial_function (option) descend ::
  "arith \<Rightarrow> (number \<Rightarrow> 's \<Rightarrow> (error + number) \<times> 's) \<Rightarrow> number \<Rightarrow> 's
   \<Rightarrow> ((error + number) \<times> 's) option" where
  "descend A fn x s =
     (case fn x s of
        (Inl e, s') \<Rightarrow> Some (Inl e, s')
      | (Inr v, s') \<Rightarrow>
          if js_lt v (Fin 0) then descend A fn (fsub A x cent) s' else Some (Inr x, s'))"

definition seekZero ::
  "arith \<Rightarrow> (number \<Rightarrow> 's \<Rightarrow> (error + number) \<times> 's) \<Rightarrow> 's
   \<Rightarrow> ((error + number) \<times> 's) option" where
  "seekZero A fn s =
     (case ascend A fn (Fin 1) s of
        None \<Rightarrow> None
      | Some (Inl e, s1) \<Rightarrow> Some (Inl e, s1)
      | Some (Inr x1, s1) \<Rightarrow>
          (case descend A fn x1 s1 of
             None \<Rightarrow> None
           | Some (Inl e, s2) \<Rightarrow> Some (Inl e, s2)
           | Some (Inr x2, s2) \<Rightarrow> Some (Inr (fadd A x2 cent), s2)))"

text \<open>
  \<open>IRR_run\<close> is IRR together with the final state of the call; \<open>IRR\<close> is what the
  caller sees.
\<close>

definition IRR_run ::
  "arith \<Rightarrow> number \<Rightarrow> real list \<Rightarrow> ((error + number) \<times> irr_state) option" where
  "IRR_run A cfs cashFlows =
     (let st0 = \<lparr>numberOfTries = 1, evaluations = 0\<rparr>;
          (positive, negative) = scan_signs cashFlows in
      if \<not> positive \<or> \<not> negative then Some (Inl (Error IRR_sign_message), st0)
      else (case seekZero A (npv A cfs cashFlows) st0 of
              None \<Rightarrow> None
            | Some (Inl e, st) \<Rightarrow> Some (Inl e, st)
            | Some (Inr x, st) \<Rightarrow>
                Some (Inr (fdiv A (Math_round (fmul A x (Fin 100))) (Fin 100)), st)))"

definition IRR :: "arith \<Rightarrow> number \<Rightarrow> real list \<Rightarrow> (error + number) option" where
  "IRR A cfs cashFlows = map_option fst (IRR_run A cfs cashFlows)"

section \<open>XIRR\<close>

text \<open>
  A date is its time value, the milliseconds that \<open>getTime()\<close> returns, an integer that
  binary64 represents exactly.
\<close>

definition durYear :: "arith \<Rightarrow> int \<Rightarrow> int \<Rightarrow> number" where
  "durYear A first' last' =
     fdiv A (Math_abs (fsub A (Fin (real_of_int last')) (Fin (real_of_int first'))))
            (Fin (1000 * 3600 * 24 * 365))"

text \<open>
  \<open>durs.push(0)\<close>, then one \<open>durs.push(this.durYear(dates[0], dates[i]))\<close> for each
  \<open>i\<close> from 1.
\<close>

definition durations :: "arith \<Rightarrow> int list \<Rightarrow> number list" where
  "durations A dates = Fin 0 # map (\<lambda>i. durYear A (dates ! 0) (dates ! i)) [1 ..< length dates]"

definition sumEq :: "arith \<Rightarrow> real list \<Rightarrow> number list \<Rightarrow> number \<Rightarrow> number" where
  "sumEq A cfs durs guess =
     (let sum_fx =
            fold (\<lambda>i sum_fx.
                    fadd A sum_fx
                      (fdiv A (item cfs i) (fpow A (fadd A (Fin 1) guess) (entry durs i))))
                 [0 ..< length cfs] (Fin 0);
          sum_fdx =
            fold (\<lambda>i sum_fdx.
                    fadd A sum_fdx
                      (fmul A (fmul A (js_neg (item cfs i)) (entry durs i))
                         (fpow A (fadd A (Fin 1) guess) (fsub A (Fin (- 1)) (entry durs i)))))
                 [0 ..< length cfs] (Fin 0)
      in fdiv A sum_fx sum_fdx)"

text \<open>
  The \<open>do ... while\<close> loop of XIRR: the body runs, then the condition decides. The
  result is the three variables of the loop when it ends.
\<close>

function XIRR_loop ::
  "arith \<Rightarrow> real list \<Rightarrow> number list \<Rightarrow> number \<Rightarrow> int \<Rightarrow> number \<times> number \<times> int" where
  "XIRR_loop A cashFlows durs guess limit =
     (let guess_last = guess;
          guess' = fsub A guess_last (sumEq A cashFlows durs guess_last);
          limit' = limit - 1 in
      if toFixed 5 guess_last \<noteq> toFixed 5 guess' \<and> limit' > 0
      then XIRR_loop A cashFlows durs guess' limit'
      else (guess_last, guess', limit'))"
  by pat_completeness auto
termination
  by (relation "measure (\<lambda>(A, cashFlows, durs, guess, limit). nat limit)") auto

declare XIRR_loop.simps [simp del]

text \<open>The result \<open>null\<close> is \<open>None\<close>.\<close>

definition XIRR :: "arith \<Rightarrow> real list \<Rightarrow> int list \<Rightarrow> number \<Rightarrow> error + number option" where
  "XIRR A cashFlows dates guess =
     (if length cashFlows \<noteq> length dates then Inl (Error XIRR_length_message)
      else
        let (positive, negative) = scan_signs cashFlows in
        if \<not> positive \<or> \<not> negative then Inl (Error XIRR_sign_message)
        else
          let guess0 = (if truthy guess then guess else Fin 0);
              durs = durations A dates;
              (guess_last, guess1, limit) = XIRR_loop A cashFlows durs guess0 100;
              xirr = (if toFixed 5 guess_last \<noteq> toFixed 5 guess1 then None
                      else Some (fmul A guess1 (Fin 100)))
          in Inr (case xirr of
                    None \<Rightarrow> None
                  | Some v \<Rightarrow> Some (fdiv A (Math_round (fmul A v (Fin 100))) (Fin 100))))"

section \<open>What the counter of IRR keeps\<close>

text \<open>
  While no call has failed, the counter is one more than the number of evaluations made,
  or \<open>2^53\<close> if that is less, and the last evaluation made, if any, did not find the
  counter above the cap.
\<close>

definition counting :: "number \<Rightarrow> irr_state \<Rightarrow> bool" where
  "counting cfs st =
     (numberOfTries st = min (Suc (evaluations st)) max_count
      \<and> (evaluations st = 0 \<or> \<not> js_gt (Fin (real (numberOfTries st))) cfs))"

text \<open>After the failing call the counter is above the cap, and that call made no evaluation.\<close>

definition exhausted :: "number \<Rightarrow> error \<Rightarrow> irr_state \<Rightarrow> bool" where
  "exhausted cfs e st =
     (e = Error IRR_tries_message
      \<and> numberOfTries st = min (Suc (Suc (evaluations st))) max_count
      \<and> js_gt (Fin (real (numberOfTries st))) cfs
      \<and> (evaluations st = 0 \<or> \<not> js_gt (Fin (real (min (Suc (evaluations st)) max_count))) cfs))"

section \<open>The rates that the search of IRR visits\<close>

text \<open>
  The rate after \<open>i\<close> rounds of \<open>x += 1\<close> from \<open>x\<close>, and after \<open>i\<close> rounds of
  \<open>x -= 0.01\<close> from \<open>x\<close>.
\<close>

primrec rate_up :: "arith \<Rightarrow> number \<Rightarrow> nat \<Rightarrow> number" where
  "rate_up A x 0 = x"
| "rate_up A x (Suc i) = fadd A (rate_up A x i) (Fin 1)"

primrec rate_down :: "arith \<Rightarrow> number \<Rightarrow> nat \<Rightarrow> number" where
  "rate_down A x 0 = x"
| "rate_down A x (Suc i) = fsub A (rate_down A x i) cent"

text \<open>
  An ascent of \<open>k\<close> steps: the value is positive at the first \<open>k\<close> rates from 1 and not
  positive at the next. A descent of \<open>j\<close> steps from \<open>x\<close>: the value is negative at the
  first \<open>j\<close> rates from \<open>x\<close> and not negative at the next.
\<close>

definition ascent :: "arith \<Rightarrow> real list \<Rightarrow> nat \<Rightarrow> bool" where
  "ascent A cashFlows k =
     ((\<forall>i<k. js_gt (npv_sum A cashFlows (rate_up A (Fin 1) i)) (Fin 0))
      \<and> \<not> js_gt (npv_sum A cashFlows (rate_up A (Fin 1) k)) (Fin 0))"

definition descent :: "arith \<Rightarrow> real list \<Rightarrow> number \<Rightarrow> nat \<Rightarrow> bool" where
  "descent A cashFlows x j =
     ((\<forall>i<j. js_lt (npv_sum A cashFlows (rate_down A x i)) (Fin 0))
      \<and> \<not> js_lt (npv_sum A cashFlows (rate_down A x j)) (Fin 0))"

section \<open>The update of the guess in XIRR\<close>

text \<open>
  A name for the right-hand side of the assignment
  \<open>guess = guess_last - this.sumEq(cashFlows, durs, guess_last)\<close> in the loop of XIRR.
\<close>

definition XIRR_step :: "arith \<Rightarrow> real list \<Rightarrow> number list \<Rightarrow> number \<Rightarrow> number" where
  "XIRR_step A cashFlows durs guess_last = fsub A guess_last (sumEq A cashFlows durs guess_last)"

text \<open>
  The power \<open>b^e\<close> of real numbers, for the formulas of the specification: any exponent
  for a positive base, an integral exponent for a negative base.
\<close>

definition real_pow :: "real \<Rightarrow> real \<Rightarrow> real" where
  "real_pow b e = (if 0 < b then b powr e else b powi \<lfloor>e\<rfloor>)"

section \<open>Properties of the sign check\<close>

lemma scan_signs_fold:
  "fold (\<lambda>value (positive, negative).
             (if value > 0 then True else positive, if value < 0 then True else negative))
          cs (p, n) = (p \<or> (\<exists>v\<in>set cs. (v::real) > 0), n \<or> (\<exists>v\<in>set cs. v < 0))"
  by (induction cs arbitrary: p n) auto

lemma scan_signs_eq: "scan_signs cs = ((\<exists>v\<in>set cs. 0 < v), (\<exists>v\<in>set cs. v < 0))"
  by (simp add: scan_signs_def scan_signs_fold)

section \<open>Comparisons and the ideal arithmetic\<close>



lemma js_gt_mono: "js_gt (Fin a) c \<Longrightarrow> a \<le> b \<Longrightarrow> js_gt (Fin b) c"
  by (cases c) auto

lemma ideal_simps [simp]:
  "fadd ideal = ideal_add" "fmul ideal = ideal_mul" "fdiv ideal = ideal_div"
  "fpow ideal = ideal_pow"
  by (simp_all add: ideal_def)

lemma fsub_ideal [simp]: "fsub ideal (Fin a) (Fin b) = Fin (a - b)"
  by (simp add: fsub_def)

lemma ideal_pow_nat: "b \<noteq> 0 \<Longrightarrow> ideal_pow (Fin b) (Fin (real i)) = Fin (b ^ i)"
  by (cases "0 < b") (simp_all add: powr_realpow)

section \<open>Reasoning about the two loops\<close>

text \<open>Induction over the iterations of a loop that ends.\<close>

lemma ascend_induct [consumes 1, case_names step]:
  assumes "ascend A fn x s = Some y"
    and "\<And>asc A fn x s y.
            (\<And>A fn x s y. asc A fn x s = Some y \<Longrightarrow> P A fn x s y) \<Longrightarrow>
            (case fn x s of
               (Inl e, s') \<Rightarrow> Some (Inl e, s')
             | (Inr v, s') \<Rightarrow>
                 if js_gt v (Fin 0) then asc A fn (fadd A x (Fin 1)) s' else Some (Inr x, s'))
              = Some y
            \<Longrightarrow> P A fn x s y"
  shows "P A fn x s y"
proof -
  have "(case (((A, fn), x), s) of
           (a, b) \<Rightarrow> (case a of (c, d) \<Rightarrow> (case c of (e, f) \<Rightarrow> P e f) d) b) y"
  proof (rule ascend.raw_induct[of P "(((A, fn), x), s)" y])
    show "(case (((A, fn), x), s) of
             (a, b) \<Rightarrow> (case a of (c, d) \<Rightarrow> (case c of (e, f) \<Rightarrow> ascend e f) d) b) = Some y"
      using assms(1) by simp
  next
    fix asc A fn x s y
    assume "\<And>A fn x s y. asc A fn x s = Some y \<Longrightarrow> P A fn x s y"
      and "(case fn x s of
               (Inl e, s') \<Rightarrow> Some (Inl e, s')
             | (Inr v, s') \<Rightarrow>
                 if js_gt v (Fin 0) then asc A fn (fadd A x (Fin 1)) s' else Some (Inr x, s'))
            = Some y"
    then show "P A fn x s y" by (rule assms(2))
  qed
  then show ?thesis by simp
qed

lemma descend_induct [consumes 1, case_names step]:
  assumes "descend A fn x s = Some y"
    and "\<And>dsc A fn x s y.
            (\<And>A fn x s y. dsc A fn x s = Some y \<Longrightarrow> P A fn x s y) \<Longrightarrow>
            (case fn x s of
               (Inl e, s') \<Rightarrow> Some (Inl e, s')
             | (Inr v, s') \<Rightarrow>
                 if js_lt v (Fin 0) then dsc A fn (fsub A x cent) s' else Some (Inr x, s'))
              = Some y
            \<Longrightarrow> P A fn x s y"
  shows "P A fn x s y"
proof -
  have "(case (((A, fn), x), s) of
           (a, b) \<Rightarrow> (case a of (c, d) \<Rightarrow> (case c of (e, f) \<Rightarrow> P e f) d) b) y"
  proof (rule descend.raw_induct[of P "(((A, fn), x), s)" y])
    show "(case (((A, fn), x), s) of
             (a, b) \<Rightarrow> (case a of (c, d) \<Rightarrow> (case c of (e, f) \<Rightarrow> descend e f) d) b) = Some y"
      using assms(1) by simp
  next
    fix dsc A fn x s y
    assume "\<And>A fn x s y. dsc A fn x s = Some y \<Longrightarrow> P A fn x s y"
      and "(case fn x s of
               (Inl e, s') \<Rightarrow> Some (Inl e, s')
             | (Inr v, s') \<Rightarrow>
                 if js_lt v (Fin 0) then dsc A fn (fsub A x cent) s' else Some (Inr x, s'))
            = Some y"
    then show "P A fn x s y" by (rule assms(2))
  qed
  then show ?thesis by simp
qed

text \<open>
  A property of the state that every returning call of \<open>fn\<close> keeps holds when a loop
  ends normally, and a property of every failing call holds when the loop fails.
\<close>

lemma ascend_invariant_aux:
  assumes "ascend A fn x s = Some y"
  shows "(\<forall>x s v s1. I s \<longrightarrow> fn x s = (Inr v, s1) \<longrightarrow> I s1) \<longrightarrow>
         (\<forall>x s e s1. I s \<longrightarrow> fn x s = (Inl e, s1) \<longrightarrow> E e s1) \<longrightarrow>
         I s \<longrightarrow> (case fst y of Inl e \<Rightarrow> E e (snd y) | Inr x' \<Rightarrow> I (snd y))"
  using assms
proof (induction rule: ascend_induct)
  case (step asc A fn x s y)
  show ?case
  proof (intro impI)
    assume ok: "\<forall>x s v s1. I s \<longrightarrow> fn x s = (Inr v, s1) \<longrightarrow> I s1"
      and err: "\<forall>x s e s1. I s \<longrightarrow> fn x s = (Inl e, s1) \<longrightarrow> E e s1"
      and I: "I s"
    obtain r s1 where fn: "fn x s = (r, s1)" by (cases "fn x s")
    show "case fst y of Inl e \<Rightarrow> E e (snd y) | Inr x' \<Rightarrow> I (snd y)"
    proof (cases r)
      case (Inl e)
      with fn step(2) have "y = (Inl e, s1)" by simp
      moreover have "E e s1" using err I fn Inl by blast
      ultimately show ?thesis by simp
    next
      case (Inr v)
      have I1: "I s1" using ok I fn Inr by blast
      show ?thesis
      proof (cases "js_gt v (Fin 0)")
        case True
        with fn Inr step(2) have "asc A fn (fadd A x (Fin 1)) s1 = Some y" by simp
        from step(1)[OF this] ok err I1 show ?thesis by blast
      next
        case False
        with fn Inr step(2) have "y = (Inr x, s1)" by simp
        then show ?thesis using I1 by simp
      qed
    qed
  qed
qed

lemma ascend_invariant:
  assumes "ascend A fn x s = Some (r, s')"
    and "I s"
    and "\<And>x s v s1. I s \<Longrightarrow> fn x s = (Inr v, s1) \<Longrightarrow> I s1"
    and "\<And>x s e s1. I s \<Longrightarrow> fn x s = (Inl e, s1) \<Longrightarrow> E e s1"
  shows "case r of Inl e \<Rightarrow> E e s' | Inr x' \<Rightarrow> I s'"
proof -
  have ok: "\<forall>x s v s1. I s \<longrightarrow> fn x s = (Inr v, s1) \<longrightarrow> I s1"
    using assms(3) by blast
  have err: "\<forall>x s e s1. I s \<longrightarrow> fn x s = (Inl e, s1) \<longrightarrow> E e s1"
    using assms(4) by blast
  from ascend_invariant_aux[OF assms(1), of I E] ok err assms(2)
  have "case fst (r, s') of Inl e \<Rightarrow> E e (snd (r, s')) | Inr x' \<Rightarrow> I (snd (r, s'))"
    by blast
  then show ?thesis by (cases r) simp_all
qed

lemma descend_invariant_aux:
  assumes "descend A fn x s = Some y"
  shows "(\<forall>x s v s1. I s \<longrightarrow> fn x s = (Inr v, s1) \<longrightarrow> I s1) \<longrightarrow>
         (\<forall>x s e s1. I s \<longrightarrow> fn x s = (Inl e, s1) \<longrightarrow> E e s1) \<longrightarrow>
         I s \<longrightarrow> (case fst y of Inl e \<Rightarrow> E e (snd y) | Inr x' \<Rightarrow> I (snd y))"
  using assms
proof (induction rule: descend_induct)
  case (step dsc A fn x s y)
  show ?case
  proof (intro impI)
    assume ok: "\<forall>x s v s1. I s \<longrightarrow> fn x s = (Inr v, s1) \<longrightarrow> I s1"
      and err: "\<forall>x s e s1. I s \<longrightarrow> fn x s = (Inl e, s1) \<longrightarrow> E e s1"
      and I: "I s"
    obtain r s1 where fn: "fn x s = (r, s1)" by (cases "fn x s")
    show "case fst y of Inl e \<Rightarrow> E e (snd y) | Inr x' \<Rightarrow> I (snd y)"
    proof (cases r)
      case (Inl e)
      with fn step(2) have "y = (Inl e, s1)" by simp
      moreover have "E e s1" using err I fn Inl by blast
      ultimately show ?thesis by simp
    next
      case (Inr v)
      have I1: "I s1" using ok I fn Inr by blast
      show ?thesis
      proof (cases "js_lt v (Fin 0)")
        case True
        with fn Inr step(2) have "dsc A fn (fsub A x cent) s1 = Some y" by simp
        from step(1)[OF this] ok err I1 show ?thesis by blast
      next
        case False
        with fn Inr step(2) have "y = (Inr x, s1)" by simp
        then show ?thesis using I1 by simp
      qed
    qed
  qed
qed

lemma descend_invariant:
  assumes "descend A fn x s = Some (r, s')"
    and "I s"
    and "\<And>x s v s1. I s \<Longrightarrow> fn x s = (Inr v, s1) \<Longrightarrow> I s1"
    and "\<And>x s e s1. I s \<Longrightarrow> fn x s = (Inl e, s1) \<Longrightarrow> E e s1"
  shows "case r of Inl e \<Rightarrow> E e s' | Inr x' \<Rightarrow> I s'"
proof -
  have ok: "\<forall>x s v s1. I s \<longrightarrow> fn x s = (Inr v, s1) \<longrightarrow> I s1"
    using assms(3) by blast
  have err: "\<forall>x s e s1. I s \<longrightarrow> fn x s = (Inl e, s1) \<longrightarrow> E e s1"
    using assms(4) by blast
  from descend_invariant_aux[OF assms(1), of I E] ok err assms(2)
  have "case fst (r, s') of Inl e \<Rightarrow> E e (snd (r, s')) | Inr x' \<Rightarrow> I (snd (r, s'))"
    by blast
  then show ?thesis by (cases r) simp_all
qed

text \<open>The two loops of \<open>seekZero\<close>, one after the other.\<close>

lemma seekZero_cases:
  assumes "seekZero A fn s = Some (r, s')"
  obtains (up_fails) e where "ascend A fn (Fin 1) s = Some (Inl e, s')" "r = Inl e"
  | (down_fails) x1 s1 e where "ascend A fn (Fin 1) s = Some (Inr x1, s1)"
      "descend A fn x1 s1 = Some (Inl e, s')" "r = Inl e"
  | (returns) x1 s1 x2 where "ascend A fn (Fin 1) s = Some (Inr x1, s1)"
      "descend A fn x1 s1 = Some (Inr x2, s')" "r = Inr (fadd A x2 cent)"
proof -
  from assms obtain r1 s1 where a: "ascend A fn (Fin 1) s = Some (r1, s1)"
    by (auto simp: seekZero_def split: option.splits)
  show ?thesis
  proof (cases r1)
    case (Inl e)
    with assms a have "r = Inl e" "s' = s1" by (auto simp: seekZero_def)
    with a Inl show ?thesis by (auto intro: up_fails)
  next
    case (Inr x1)
    with assms a obtain r2 s2 where d: "descend A fn x1 s1 = Some (r2, s2)"
      by (auto simp: seekZero_def split: option.splits)
    show ?thesis
    proof (cases r2)
      case (Inl e)
      with assms a d Inr have "r = Inl e" "s' = s2" by (auto simp: seekZero_def)
      with a d Inr Inl show ?thesis by (auto intro: down_fails)
    next
      case r2: (Inr x2)
      with assms a d Inr have "r = Inr (fadd A x2 cent)" "s' = s2" by (auto simp: seekZero_def)
      with a d Inr r2 show ?thesis by (auto intro: returns)
    qed
  qed
qed

lemma seekZero_invariant:
  assumes sz: "seekZero A fn s = Some (r, s')"
    and I: "I s"
    and ok: "\<And>x s v s1. I s \<Longrightarrow> fn x s = (Inr v, s1) \<Longrightarrow> I s1"
    and err: "\<And>x s e s1. I s \<Longrightarrow> fn x s = (Inl e, s1) \<Longrightarrow> E e s1"
  shows "case r of Inl e \<Rightarrow> E e s' | Inr x' \<Rightarrow> I s'"
  using sz
proof (cases rule: seekZero_cases)
  case (up_fails e)
  from ascend_invariant[OF up_fails(1), of I E, OF I ok err] up_fails(2) show ?thesis by simp
next
  case (down_fails x1 s1 e)
  from ascend_invariant[OF down_fails(1), of I E, OF I ok err] have I1: "I s1" by simp
  from descend_invariant[OF down_fails(2), of I E, OF I1 ok err] down_fails(3) show ?thesis by simp
next
  case (returns x1 s1 x2)
  from ascend_invariant[OF returns(1), of I E, OF I ok err] have I1: "I s1" by simp
  from descend_invariant[OF returns(2), of I E, OF I1 ok err] returns(3) show ?thesis by simp
qed

section \<open>The inner function of IRR\<close>

lemma npv_throw:
  "js_gt (Fin (real (increment (numberOfTries st)))) cfs \<Longrightarrow>
   npv A cfs cs r st
     = (Inl (Error IRR_tries_message), st\<lparr>numberOfTries := increment (numberOfTries st)\<rparr>)"
  by (simp add: npv_def Let_def)

lemma npv_ok:
  "\<not> js_gt (Fin (real (increment (numberOfTries st)))) cfs \<Longrightarrow>
   npv A cfs cs r st = (Inr (npv_sum A cs r),
      st\<lparr>numberOfTries := increment (numberOfTries st), evaluations := Suc (evaluations st)\<rparr>)"
  by (simp add: npv_def Let_def)

lemma npv_Inl: "npv A cfs cs r st = (Inl e, st') \<Longrightarrow> e = Error IRR_tries_message"
  by (auto simp: npv_def Let_def split: if_splits)

lemma npv_Inr_value:
  "npv A cfs cs x st = (Inr v, s1) \<Longrightarrow> v = npv_sum A cs x \<and> evaluations s1 = Suc (evaluations st)"
  by (auto simp: npv_def Let_def split: if_splits)

lemma messages_distinct:
  "IRR_tries_message \<noteq> IRR_sign_message" "IRR_tries_message \<noteq> XIRR_length_message"
  "IRR_tries_message \<noteq> XIRR_sign_message" "XIRR_length_message \<noteq> XIRR_sign_message"
  "IRR_sign_message \<noteq> XIRR_length_message" "IRR_sign_message \<noteq> XIRR_sign_message"
  by (simp_all add: IRR_tries_message_def IRR_sign_message_def XIRR_length_message_def
      XIRR_sign_message_def)

lemma seekZero_npv_error:
  assumes "seekZero A (npv A cfs cs) s = Some (Inl e, s')"
  shows "e = Error IRR_tries_message"
  using seekZero_invariant[OF assms, of "\<lambda>_. True" "\<lambda>e _. e = Error IRR_tries_message"]
  by (auto dest: npv_Inl)

section \<open>Validation of the cash-flow series by IRR\<close>

lemma IRR_run_invalid:
  "\<not> (\<exists>v\<in>set cashFlows. 0 < v) \<or> \<not> (\<exists>v\<in>set cashFlows. v < 0) \<Longrightarrow>
   IRR_run A cfs cashFlows =
     Some (Inl (Error IRR_sign_message), \<lparr>numberOfTries = 1, evaluations = 0\<rparr>)"
  by (auto simp: IRR_run_def scan_signs_eq)

lemma IRR_run_valid:
  "\<exists>v\<in>set cashFlows. 0 < v \<Longrightarrow> \<exists>v\<in>set cashFlows. v < 0 \<Longrightarrow>
   IRR_run A cfs cashFlows =
     (case seekZero A (npv A cfs cashFlows) \<lparr>numberOfTries = 1, evaluations = 0\<rparr> of
        None \<Rightarrow> None
      | Some (Inl e, st) \<Rightarrow> Some (Inl e, st)
      | Some (Inr x, st) \<Rightarrow>
          Some (Inr (fdiv A (Math_round (fmul A x (Fin 100))) (Fin 100)), st))"
  by (simp add: IRR_run_def scan_signs_eq)

lemma IRR_run_valid_error:
  assumes "\<exists>v\<in>set cashFlows. 0 < v" "\<exists>v\<in>set cashFlows. v < 0"
    and "IRR_run A cfs cashFlows = Some (Inl e, st)"
  shows "seekZero A (npv A cfs cashFlows) \<lparr>numberOfTries = 1, evaluations = 0\<rparr> = Some (Inl e, st)"
proof (cases "seekZero A (npv A cfs cashFlows) \<lparr>numberOfTries = 1, evaluations = 0\<rparr>")
  case None
  with assms show ?thesis by (simp add: IRR_run_valid)
next
  case (Some y)
  obtain r s where y: "y = (r, s)" by (cases y)
  show ?thesis using assms(3) Some y by (cases r) (simp_all add: IRR_run_valid[OF assms(1,2)])
qed

text \<open>
  C5. IRR fails with InvalidInput exactly when the series has no strictly positive value
  or no strictly negative value, the all-positive and the empty series among them; and it
  then fails before any call of \<open>npv\<close>: the counter is still 1 and no evaluation has been
  made. This holds in every arithmetic.
\<close>

theorem IRR_invalid_input:
  "((\<exists>e. IRR A cfs cashFlows = Some (Inl e) \<and> InvalidInput e) \<longleftrightarrow>
      \<not> (\<exists>v\<in>set cashFlows. 0 < v) \<or> \<not> (\<exists>v\<in>set cashFlows. v < 0))
   \<and> (\<not> (\<exists>v\<in>set cashFlows. 0 < v) \<or> \<not> (\<exists>v\<in>set cashFlows. v < 0) \<longrightarrow>
        IRR_run A cfs cashFlows =
          Some (Inl (Error IRR_sign_message), \<lparr>numberOfTries = 1, evaluations = 0\<rparr>))"
proof (cases "\<not> (\<exists>v\<in>set cashFlows. 0 < v) \<or> \<not> (\<exists>v\<in>set cashFlows. v < 0)")
  case True
  note run = IRR_run_invalid[OF True, of A cfs]
  have "IRR A cfs cashFlows = Some (Inl (Error IRR_sign_message))"
    by (simp add: IRR_def run)
  moreover have "InvalidInput (Error IRR_sign_message)"
    by (simp add: InvalidInput_def)
  ultimately have "\<exists>e. IRR A cfs cashFlows = Some (Inl e) \<and> InvalidInput e" by blast
  with True run show ?thesis by blast
next
  case False
  then have pos: "\<exists>v\<in>set cashFlows. 0 < v" and neg: "\<exists>v\<in>set cashFlows. v < 0" by blast+
  have "\<not> (\<exists>e. IRR A cfs cashFlows = Some (Inl e) \<and> InvalidInput e)"
  proof
    assume "\<exists>e. IRR A cfs cashFlows = Some (Inl e) \<and> InvalidInput e"
    then obtain e where e: "IRR A cfs cashFlows = Some (Inl e)" "InvalidInput e" by blast
    from e(1) obtain st where "IRR_run A cfs cashFlows = Some (Inl e, st)"
      by (auto simp: IRR_def)
    from IRR_run_valid_error[OF pos neg this] have "e = Error IRR_tries_message"
      by (rule seekZero_npv_error)
    with e(2) show False by (simp add: InvalidInput_def messages_distinct)
  qed
  with False show ?thesis by blast
qed

theorem IRR_invalid_input_witness:
  "(\<exists>e. IRR ideal (Fin 10) [100, 200] = Some (Inl e) \<and> InvalidInput e)
   \<and> IRR_run ideal (Fin 10) [] =
       Some (Inl (Error IRR_sign_message), \<lparr>numberOfTries = 1, evaluations = 0\<rparr>)"
  using IRR_invalid_input[of ideal "Fin 10" "[100, 200]"] IRR_invalid_input[of ideal "Fin 10" "[]"]
  by simp

section \<open>Validation by XIRR\<close>

lemma XIRR_length_error:
  "length cashFlows \<noteq> length dates \<Longrightarrow>
   XIRR A cashFlows dates guess = Inl (Error XIRR_length_message)"
  by (simp add: XIRR_def)

lemma XIRR_sign_error:
  "length cashFlows = length dates \<Longrightarrow>
   \<not> (\<exists>v\<in>set cashFlows. 0 < v) \<or> \<not> (\<exists>v\<in>set cashFlows. v < 0) \<Longrightarrow>
   XIRR A cashFlows dates guess = Inl (Error XIRR_sign_message)"
  by (auto simp: XIRR_def scan_signs_eq)

lemma XIRR_valid_result:
  "length cashFlows = length dates \<Longrightarrow>
   \<exists>v\<in>set cashFlows. 0 < v \<Longrightarrow> \<exists>v\<in>set cashFlows. v < 0 \<Longrightarrow>
   \<exists>r. XIRR A cashFlows dates guess = Inr r"
  by (simp add: XIRR_def scan_signs_eq Let_def split: prod.splits)

text \<open>
  C6. XIRR fails with InvalidInput exactly when the two arrays differ in length, or the
  cash-flow series has no strictly positive value, or it has no strictly negative value.
  The lengths are compared first: with arrays of different lengths the error is the one
  about the lengths, whatever the signs. Both errors are returned by the branches that
  precede the seed, the durations and the loop. This holds in every arithmetic.
\<close>

theorem XIRR_invalid_input:
  "((\<exists>e. XIRR A cashFlows dates guess = Inl e \<and> InvalidInput e) \<longleftrightarrow>
      length cashFlows \<noteq> length dates
      \<or> \<not> (\<exists>v\<in>set cashFlows. 0 < v) \<or> \<not> (\<exists>v\<in>set cashFlows. v < 0))
   \<and> (length cashFlows \<noteq> length dates \<longrightarrow>
        XIRR A cashFlows dates guess = Inl (Error XIRR_length_message))
   \<and> (length cashFlows = length dates
        \<and> (\<not> (\<exists>v\<in>set cashFlows. 0 < v) \<or> \<not> (\<exists>v\<in>set cashFlows. v < 0)) \<longrightarrow>
        XIRR A cashFlows dates guess = Inl (Error XIRR_sign_message))"
proof -
  consider (len) "length cashFlows \<noteq> length dates"
    | (sign) "length cashFlows = length dates"
        "\<not> (\<exists>v\<in>set cashFlows. 0 < v) \<or> \<not> (\<exists>v\<in>set cashFlows. v < 0)"
    | (valid) "length cashFlows = length dates"
        "\<exists>v\<in>set cashFlows. 0 < v" "\<exists>v\<in>set cashFlows. v < 0"
    by blast
  then show ?thesis
  proof cases
    case len
    have "InvalidInput (Error XIRR_length_message)" by (simp add: InvalidInput_def)
    with XIRR_length_error[OF len, of A guess] len show ?thesis by simp
  next
    case sign
    have "InvalidInput (Error XIRR_sign_message)" by (simp add: InvalidInput_def)
    with XIRR_sign_error[OF sign, of A guess] sign show ?thesis by simp
  next
    case valid
    from XIRR_valid_result[OF valid, of A guess] obtain r
      where "XIRR A cashFlows dates guess = Inr r" by blast
    with valid show ?thesis by simp
  qed
qed

theorem XIRR_invalid_input_witness:
  "XIRR ideal [1, - 1] [0] (Fin 0) = Inl (Error XIRR_length_message)
   \<and> XIRR ideal [1, 1, 1] [0] (Fin 0) = Inl (Error XIRR_length_message)
   \<and> XIRR ideal [1, 2] [0, 86400000] (Fin 0) = Inl (Error XIRR_sign_message)"
  using XIRR_invalid_input[of ideal "[1, - 1]" "[0]" "Fin 0"]
    XIRR_invalid_input[of ideal "[1, 1, 1]" "[0]" "Fin 0"]
    XIRR_invalid_input[of ideal "[1, 2]" "[0, 86400000]" "Fin 0"]
  by simp

section \<open>The durations of XIRR\<close>

lemma durations_nth:
  assumes "1 \<le> i" and "i < length dates"
  shows "durations A dates ! i = durYear A (dates ! 0) (dates ! i)"
proof -
  from assms obtain j where j: "i = Suc j" by (cases i) auto
  with assms have "j < length [1 ..< length dates]" by simp
  then show ?thesis using j assms by (simp add: durations_def)
qed

lemma durYear_ideal:
  "durYear ideal a b = Fin (\<bar>real_of_int b - real_of_int a\<bar> / (1000 * 3600 * 24 * 365))"
  by (simp add: durYear_def)

text \<open>
  C9. The first duration is 0, and the duration at every later index \<open>i\<close> is the absolute
  difference of the time values of \<open>dates[i]\<close> and \<open>dates[0]\<close>, in milliseconds,
  divided by \<open>1000 * 3600 * 24 * 365\<close>: a year is 365 days. In every arithmetic it is
  that difference, its absolute value and that quotient as the arithmetic computes them;
  in the ideal arithmetic it is the real number \<open>|dates[i] - dates[0]| / 31536000000\<close>,
  and the order of the two dates makes no difference.
\<close>

theorem durations_spec:
  "durations A dates ! 0 = Fin 0
   \<and> (\<forall>i. 1 \<le> i \<and> i < length dates \<longrightarrow>
         durations A dates ! i
           = fdiv A (Math_abs (fsub A (Fin (real_of_int (dates ! i))) (Fin (real_of_int (dates ! 0)))))
                    (Fin (1000 * 3600 * 24 * 365))
         \<and> durations ideal dates ! i
           = Fin (\<bar>real_of_int (dates ! i) - real_of_int (dates ! 0)\<bar> / (1000 * 3600 * 24 * 365))
         \<and> durations ideal dates ! i = durYear ideal (dates ! i) (dates ! 0))"
proof (intro conjI allI impI)
  show "durations A dates ! 0 = Fin 0" by (simp add: durations_def)
next
  fix i assume i: "1 \<le> i \<and> i < length dates"
  then have d: "durations B dates ! i = durYear B (dates ! 0) (dates ! i)" for B
    by (simp add: durations_nth)
  show "durations A dates ! i
      = fdiv A (Math_abs (fsub A (Fin (real_of_int (dates ! i))) (Fin (real_of_int (dates ! 0)))))
               (Fin (1000 * 3600 * 24 * 365))"
    by (simp add: d durYear_def)
  show "durations ideal dates ! i
      = Fin (\<bar>real_of_int (dates ! i) - real_of_int (dates ! 0)\<bar> / (1000 * 3600 * 24 * 365))"
    by (simp add: d durYear_ideal)
  show "durations ideal dates ! i = durYear ideal (dates ! i) (dates ! 0)"
    by (simp add: d durYear_ideal abs_minus_commute)
qed

theorem durations_spec_witness:
  "durations ideal [86400000, 0, 31622400000] ! 0 = Fin 0
   \<and> durations ideal [86400000, 0, 31622400000] ! 1 = Fin (1 / 365)
   \<and> durations ideal [86400000, 0, 31622400000] ! 2 = Fin 1"
proof -
  let ?dates = "[86400000, 0, 31622400000] :: int list"
  from durations_spec[of ideal ?dates]
  have zero: "durations ideal ?dates ! 0 = Fin 0"
    and rest: "\<And>i. 1 \<le> i \<and> i < length ?dates \<Longrightarrow>
      durations ideal ?dates ! i
        = Fin (\<bar>real_of_int (?dates ! i) - real_of_int (?dates ! 0)\<bar> / (1000 * 3600 * 24 * 365))"
    by blast+
  from rest[of 1] have "durations ideal ?dates ! 1 = Fin (1 / 365)" by simp
  moreover from rest[of 2] have "durations ideal ?dates ! 2 = Fin 1" by simp
  ultimately show ?thesis using zero by simp
qed

section \<open>The value that the inner function of IRR computes\<close>

lemma npv_fold:
  assumes "rrate \<noteq> 0" and "b \<le> length cs"
  shows "fold (\<lambda>i npv. ideal_add npv (ideal_div (item cs i) (ideal_pow (Fin rrate) (Fin (real i)))))
              [a ..< b] (Fin acc)
         = Fin (acc + (\<Sum>i = a ..< b. cs ! i / rrate ^ i))"
  using assms(2)
proof (induction b)
  case 0
  then show ?case by simp
next
  case (Suc b)
  show ?case
  proof (cases "a \<le> b")
    case True
    have "item cs b = Fin (cs ! b)" using Suc.prems by (simp add: item_def)
    moreover have "rrate ^ b \<noteq> 0" using assms(1) by simp
    ultimately show ?thesis
      using True Suc by (simp add: ideal_pow_nat[OF assms(1)] del: ideal_pow.simps)
  next
    case False
    then show ?thesis by simp
  qed
qed

lemma npv_sum_finite:
  assumes "cashFlows \<noteq> []" and "rate \<noteq> - 100"
  shows "npv_sum ideal cashFlows (Fin rate)
         = Fin (cashFlows ! 0 + (\<Sum>i = 1 ..< length cashFlows. cashFlows ! i / (1 + rate / 100) ^ i))"
proof -
  have "1 + rate / 100 \<noteq> 0" using assms(2) by auto
  moreover have "item cashFlows 0 = Fin (cashFlows ! 0)" using assms(1) by (simp add: item_def)
  ultimately show ?thesis by (simp add: npv_sum_def npv_fold del: ideal_pow.simps)
qed



section \<open>The counter of IRR\<close>

lemma max_count_real: "real max_count = 2 ^ 53"
  by (simp add: max_count_def)

lemma increment_min: "increment (min a max_count) = min (Suc a) max_count"
  by (simp add: increment_def min_def)

lemma npv_counting:
  "counting cfs st \<Longrightarrow> npv A cfs cs x st = (Inr v, s1) \<Longrightarrow> counting cfs s1"
  by (auto simp: npv_def Let_def counting_def increment_def min_def split: if_splits)

lemma npv_exhausted:
  "counting cfs st \<Longrightarrow> npv A cfs cs x st = (Inl e, s1) \<Longrightarrow> exhausted cfs e s1"
  by (auto simp: npv_def Let_def counting_def exhausted_def increment_def min_def
      split: if_splits)

lemma seekZero_npv_counting:
  assumes "seekZero A (npv A cfs cs) st = Some (r, st')" and "counting cfs st"
  shows "case r of Inl e \<Rightarrow> exhausted cfs e st' | Inr x \<Rightarrow> counting cfs st'"
  using assms(1,2)
  by (rule seekZero_invariant[where I = "counting cfs" and E = "exhausted cfs"])
     (erule (1) npv_counting, erule (1) npv_exhausted)

lemma counting_initial: "counting cfs \<lparr>numberOfTries = 1, evaluations = 0\<rparr>"
  by (simp add: counting_def max_count_def)

lemma descend_npv_evaluated:
  assumes "descend A fn x s = Some y"
  shows "fn = npv A cfs cs \<longrightarrow> (\<forall>x' s'. y = (Inr x', s') \<longrightarrow> 0 < evaluations s')"
  using assms
proof (induction rule: descend_induct)
  case (step dsc A fn x s y)
  show ?case
  proof (intro impI allI)
    fix x' s' assume fn: "fn = npv A cfs cs" and y: "y = (Inr x', s')"
    obtain r s1 where call: "fn x s = (r, s1)" by (cases "fn x s")
    from step(2) call y obtain v where r: "r = Inr v" by (cases r) auto
    show "0 < evaluations s'"
    proof (cases "js_lt v (Fin 0)")
      case True
      with call r step(2) have "dsc A fn (fsub A x cent) s1 = Some y" by simp
      from step(1)[OF this] fn y show ?thesis by blast
    next
      case False
      with call r step(2) y have "s1 = s'" by simp
      with npv_Inr_value[of A cfs cs x s v s1] call r fn show ?thesis by simp
    qed
  qed
qed

lemma IRR_run_seekZero:
  assumes "\<exists>v\<in>set cashFlows. 0 < v" "\<exists>v\<in>set cashFlows. v < 0"
    and "IRR_run A cfs cashFlows = Some (res, st)"
  obtains (fails) e where
      "seekZero A (npv A cfs cashFlows) \<lparr>numberOfTries = 1, evaluations = 0\<rparr> = Some (Inl e, st)"
      "res = Inl e"
  | (returns) x where
      "seekZero A (npv A cfs cashFlows) \<lparr>numberOfTries = 1, evaluations = 0\<rparr> = Some (Inr x, st)"
      "res = Inr (fdiv A (Math_round (fmul A x (Fin 100))) (Fin 100))"
proof -
  let ?sz = "seekZero A (npv A cfs cashFlows) \<lparr>numberOfTries = 1, evaluations = 0\<rparr>"
  from assms(3) obtain y where y: "?sz = Some y"
    by (cases ?sz) (simp_all add: IRR_run_valid[OF assms(1,2)])
  obtain r s where rs: "y = (r, s)" by (cases y)
  show ?thesis
  proof (cases r)
    case (Inl e)
    with assms(3) y rs have "res = Inl e" "s = st" by (simp_all add: IRR_run_valid[OF assms(1,2)])
    with y rs Inl show ?thesis by (auto intro: fails)
  next
    case (Inr x)
    with assms(3) y rs
    have "res = Inr (fdiv A (Math_round (fmul A x (Fin 100))) (Fin 100))" "s = st"
      by (auto simp: IRR_run_valid[OF assms(1,2)])
    with y rs Inr show ?thesis by (auto intro: returns)
  qed
qed

lemma IRR_run_state:
  assumes "\<exists>v\<in>set cashFlows. 0 < v" "\<exists>v\<in>set cashFlows. v < 0"
    and "IRR_run A cfs cashFlows = Some (res, st)"
  shows "case res of Inl e \<Rightarrow> exhausted cfs e st | Inr v \<Rightarrow> counting cfs st \<and> 0 < evaluations st"
  using assms
proof (cases rule: IRR_run_seekZero)
  case (fails e)
  from seekZero_npv_counting[OF fails(1) counting_initial] fails(2) show ?thesis by simp
next
  case (returns x)
  from seekZero_npv_counting[OF returns(1) counting_initial] have c: "counting cfs st" by simp
  from returns(1) have "0 < evaluations st"
  proof (cases rule: seekZero_cases)
    case (returns x1 s1 x2)
    from descend_npv_evaluated[OF returns(2), of cfs cashFlows] show ?thesis by simp
  qed simp_all
  with c returns(2) show ?thesis by simp
qed

section \<open>Termination under a cap below \<open>2^53\<close>\<close>

lemma ascend_npv_terminates:
  assumes m: "m < 2 ^ 53"
  shows "\<exists>y. ascend A (npv A (Fin m) cs) x st = Some y"
proof (induction k \<equiv> "nat \<lfloor>m\<rfloor> - numberOfTries st" arbitrary: st x rule: less_induct)
  case less
  show ?case
  proof (cases "js_gt (Fin (real (increment (numberOfTries st)))) (Fin m)")
    case True
    then show ?thesis by (subst ascend.simps) (simp add: npv_throw)
  next
    case False
    let ?st = "st\<lparr>numberOfTries := increment (numberOfTries st),
                    evaluations := Suc (evaluations st)\<rparr>"
    from False have le: "real (increment (numberOfTries st)) \<le> m" by simp
    have small: "numberOfTries st < max_count"
    proof (rule ccontr)
      assume "\<not> numberOfTries st < max_count"
      then have "real max_count \<le> real (increment (numberOfTries st))"
        by (simp add: increment_def)
      with le m show False by (simp add: max_count_real)
    qed
    then have inc: "increment (numberOfTries st) = Suc (numberOfTries st)"
      by (simp add: increment_def)
    from le have "int (Suc (numberOfTries st)) \<le> \<lfloor>m\<rfloor>" unfolding inc by (simp add: le_floor_iff)
    then have "nat \<lfloor>m\<rfloor> - numberOfTries ?st < nat \<lfloor>m\<rfloor> - numberOfTries st"
      unfolding inc by simp
    from less[OF this] obtain y
      where "ascend A (npv A (Fin m) cs) (fadd A x (Fin 1)) ?st = Some y" by blast
    then show ?thesis using False by (subst ascend.simps) (simp add: npv_ok)
  qed
qed

lemma descend_npv_terminates:
  assumes m: "m < 2 ^ 53"
  shows "\<exists>y. descend A (npv A (Fin m) cs) x st = Some y"
proof (induction k \<equiv> "nat \<lfloor>m\<rfloor> - numberOfTries st" arbitrary: st x rule: less_induct)
  case less
  show ?case
  proof (cases "js_gt (Fin (real (increment (numberOfTries st)))) (Fin m)")
    case True
    then show ?thesis by (subst descend.simps) (simp add: npv_throw)
  next
    case False
    let ?st = "st\<lparr>numberOfTries := increment (numberOfTries st),
                    evaluations := Suc (evaluations st)\<rparr>"
    from False have le: "real (increment (numberOfTries st)) \<le> m" by simp
    have small: "numberOfTries st < max_count"
    proof (rule ccontr)
      assume "\<not> numberOfTries st < max_count"
      then have "real max_count \<le> real (increment (numberOfTries st))"
        by (simp add: increment_def)
      with le m show False by (simp add: max_count_real)
    qed
    then have inc: "increment (numberOfTries st) = Suc (numberOfTries st)"
      by (simp add: increment_def)
    from le have "int (Suc (numberOfTries st)) \<le> \<lfloor>m\<rfloor>" unfolding inc by (simp add: le_floor_iff)
    then have "nat \<lfloor>m\<rfloor> - numberOfTries ?st < nat \<lfloor>m\<rfloor> - numberOfTries st"
      unfolding inc by simp
    from less[OF this] obtain y
      where "descend A (npv A (Fin m) cs) (fsub A x cent) ?st = Some y" by blast
    then show ?thesis using False by (subst descend.simps) (simp add: npv_ok)
  qed
qed

lemma seekZero_npv_terminates:
  assumes m: "m < 2 ^ 53"
  shows "\<exists>y. seekZero A (npv A (Fin m) cs) st = Some y"
proof -
  obtain r1 s1 where a: "ascend A (npv A (Fin m) cs) (Fin 1) st = Some (r1, s1)"
    using ascend_npv_terminates[OF m, of A cs "Fin 1" st] by auto
  show ?thesis
  proof (cases r1)
    case (Inl e)
    with a show ?thesis by (simp add: seekZero_def)
  next
    case (Inr x1)
    obtain r2 s2 where d: "descend A (npv A (Fin m) cs) x1 s1 = Some (r2, s2)"
      using descend_npv_terminates[OF m, of A cs x1 s1] by auto
    with a Inr show ?thesis by (cases r2) (simp_all add: seekZero_def)
  qed
qed

lemma IRR_run_terminates:
  assumes m: "m < 2 ^ 53"
  shows "\<exists>res st. IRR_run A (Fin m) cashFlows = Some (res, st)"
proof (cases "(\<exists>v\<in>set cashFlows. 0 < v) \<and> (\<exists>v\<in>set cashFlows. v < 0)")
  case False
  then have "\<not> (\<exists>v\<in>set cashFlows. 0 < v) \<or> \<not> (\<exists>v\<in>set cashFlows. v < 0)" by blast
  from IRR_run_invalid[OF this] show ?thesis by blast
next
  case True
  then have pos: "\<exists>v\<in>set cashFlows. 0 < v" and neg: "\<exists>v\<in>set cashFlows. v < 0" by blast+
  obtain r st where sz: "seekZero A (npv A (Fin m) cashFlows)
      \<lparr>numberOfTries = 1, evaluations = 0\<rparr> = Some (r, st)"
    using seekZero_npv_terminates[OF m, of A cashFlows "\<lparr>numberOfTries = 1, evaluations = 0\<rparr>"]
    by auto
  then show ?thesis by (cases r) (simp_all add: IRR_run_valid[OF pos neg])
qed

lemma counting_below:
  assumes "m < 2 ^ 53" and "\<not> js_gt (Fin (real (min (Suc e) max_count))) (Fin m)"
  shows "real (Suc e) \<le> m"
proof -
  from assms(2) have le: "real (min (Suc e) max_count) \<le> m" by simp
  have "Suc e < max_count"
  proof (rule ccontr)
    assume "\<not> Suc e < max_count"
    then have "min (Suc e) max_count = max_count" by simp
    with le assms(1) show False by (simp add: max_count_real)
  qed
  then have "min (Suc e) max_count = Suc e" by simp
  with le show ?thesis by simp
qed

section \<open>A cap that never stops the search\<close>

lemma npv_sum_two: "x \<noteq> - 100 \<Longrightarrow> npv_sum ideal [a, b] (Fin x) = Fin (a + b / (1 + x / 100))"
  by (simp add: npv_sum_finite)

lemma ascend_unbounded:
  assumes "ascend A fn x s = Some y"
  shows "A = ideal \<longrightarrow> fn = npv ideal cfs [10, - 1] \<longrightarrow>
         (\<forall>n\<le>max_count. \<not> js_gt (Fin (real n)) cfs) \<longrightarrow> numberOfTries s \<le> max_count \<longrightarrow>
         (\<exists>r. x = Fin r \<and> 1 \<le> r) \<longrightarrow> False"
  using assms
proof (induction rule: ascend_induct)
  case (step asc A fn x s y)
  show ?case
  proof (intro impI)
    assume A: "A = ideal" and fn: "fn = npv ideal cfs [10, - 1]"
      and cap: "\<forall>n\<le>max_count. \<not> js_gt (Fin (real n)) cfs"
      and n: "numberOfTries s \<le> max_count" and x: "\<exists>r. x = Fin r \<and> 1 \<le> r"
    from x obtain r where r: "x = Fin r" "1 \<le> r" by blast
    let ?s = "s\<lparr>numberOfTries := increment (numberOfTries s), evaluations := Suc (evaluations s)\<rparr>"
    have n': "increment (numberOfTries s) \<le> max_count" using n by (simp add: increment_def)
    with cap have "\<not> js_gt (Fin (real (increment (numberOfTries s)))) cfs" by blast
    then have call: "fn x s = (Inr (npv_sum ideal [10, - 1] x), ?s)"
      by (simp add: fn npv_ok)
    have "0 < 1 + r / 100" using r(2) by simp
    then have "1 / (1 + r / 100) < 10" using r(2) by (simp add: field_simps)
    then have "js_gt (npv_sum ideal [10, - 1] x) (Fin 0)" using r by (simp add: npv_sum_two)
    with call step(2) have "asc A fn (fadd A x (Fin 1)) ?s = Some y" by simp
    from step(1)[OF this] A fn cap n' r show False by simp
  qed
qed

lemma IRR_run_unbounded:
  assumes "\<forall>n\<le>max_count. \<not> js_gt (Fin (real n)) cfs"
  shows "IRR_run ideal cfs [10, - 1] = None"
proof -
  let ?st0 = "\<lparr>numberOfTries = 1, evaluations = 0\<rparr>"
  have "ascend ideal (npv ideal cfs [10, - 1]) (Fin 1) ?st0 = None"
  proof (cases "ascend ideal (npv ideal cfs [10, - 1]) (Fin 1) ?st0")
    case None then show ?thesis .
  next
    case (Some y)
    from ascend_unbounded[OF this, of cfs] assms show ?thesis by (simp add: max_count_def)
  qed
  then have "seekZero ideal (npv ideal cfs [10, - 1]) ?st0 = None" by (simp add: seekZero_def)
  moreover have "\<exists>v\<in>set [10, - 1 :: real]. 0 < v" "\<exists>v\<in>set [10, - 1 :: real]. v < 0" by simp_all
  ultimately show ?thesis by (simp add: IRR_run_valid)
qed

lemma cap_never_reached:
  "\<forall>n\<le>max_count. \<not> js_gt (Fin (real n)) PosInf"
  "\<forall>n\<le>max_count. \<not> js_gt (Fin (real n)) NaN"
  "\<forall>n\<le>max_count. \<not> js_gt (Fin (real n)) (Fin (2 ^ 53))"
proof -
  show "\<forall>n\<le>max_count. \<not> js_gt (Fin (real n)) PosInf" by simp
  show "\<forall>n\<le>max_count. \<not> js_gt (Fin (real n)) NaN" by simp
  show "\<forall>n\<le>max_count. \<not> js_gt (Fin (real n)) (Fin (2 ^ 53))"
  proof (intro allI impI)
    fix n :: nat assume "n \<le> max_count"
    then have "real n \<le> real max_count" by simp
    then have "real n \<le> 2 ^ 53" by (simp add: max_count_real)
    then show "\<not> js_gt (Fin (real n)) (Fin (2 ^ 53))" by simp
  qed
qed

text \<open>
  C1 fails as stated. The cap is a number that only the guard \<open>numberOfTries > cfs\<close>
  reads, and the counter, once at \<open>2^53\<close>, stays there. With \<open>Infinity\<close>, \<open>NaN\<close> or
  \<open>2^53\<close> as the cap the guard therefore never holds. On the series \<open>[10, -1]\<close> the
  value \<open>10 - 1 / (1 + x/100)\<close> is positive at every rate from 1 up, so the first loop
  never ends and IRR does not return.
\<close>

theorem IRR_no_cap_loops:
  "IRR ideal PosInf [10, - 1] = None \<and> IRR ideal NaN [10, - 1] = None
   \<and> IRR ideal (Fin (2 ^ 53)) [10, - 1] = None"
  using cap_never_reached by (simp add: IRR_def IRR_run_unbounded)

text \<open>
  C1, amended to a finite cap below \<open>2^53\<close>. On a series with a positive and a negative
  value, and for every such \<open>maxTries\<close>, IRR ends in every arithmetic: it returns a
  number after at most \<open>maxTries - 1\<close> evaluations of \<open>npv\<close>, or it fails with
  ConvergenceFailure and the counter is then above \<open>maxTries\<close>.
\<close>

theorem IRR_terminates_finite:
  assumes "\<exists>v\<in>set cashFlows. 0 < v" and "\<exists>v\<in>set cashFlows. v < 0" and "m < 2 ^ 53"
  shows "\<exists>res st. IRR_run A (Fin m) cashFlows = Some (res, st)
           \<and> (case res of
                 Inr v \<Rightarrow> real (evaluations st) \<le> m - 1
               | Inl e \<Rightarrow> ConvergenceFailure e \<and> m < real (numberOfTries st))"
proof -
  from IRR_run_terminates[OF assms(3)] obtain res st
    where run: "IRR_run A (Fin m) cashFlows = Some (res, st)" by blast
  note inv = IRR_run_state[OF assms(1,2) run]
  show ?thesis
  proof (cases res)
    case (Inl e)
    with inv have "exhausted (Fin m) e st" by simp
    then have "ConvergenceFailure e \<and> m < real (numberOfTries st)"
      by (simp add: exhausted_def ConvergenceFailure_def)
    with run Inl show ?thesis by simp
  next
    case (Inr v)
    with inv have c: "counting (Fin m) st" "0 < evaluations st" by simp_all
    then have "\<not> js_gt (Fin (real (min (Suc (evaluations st)) max_count))) (Fin m)"
      by (auto simp: counting_def)
    from counting_below[OF assms(3) this] have "real (evaluations st) \<le> m - 1" by simp
    with run Inr show ?thesis by simp
  qed
qed

theorem IRR_terminates_finite_witness:
  "\<exists>res st. IRR_run ideal (Fin 3) [- 10, 1] = Some (res, st)
     \<and> (case res of
           Inr v \<Rightarrow> real (evaluations st) \<le> 3 - 1
         | Inl e \<Rightarrow> ConvergenceFailure e \<and> 3 < real (numberOfTries st))"
  using IRR_terminates_finite[of "[- 10, 1]" 3 ideal] by simp

section \<open>The number of evaluations\<close>

lemma npv_calls:
  assumes "\<forall>n\<le>max_count. \<not> js_gt (Fin (real n)) cfs"
  shows "fold (\<lambda>i st. snd (npv A cfs cs (r i) st)) [0 ..< t] \<lparr>numberOfTries = 1, evaluations = 0\<rparr>
         = \<lparr>numberOfTries = min (Suc t) max_count, evaluations = t\<rparr>"
proof (induction t)
  case 0
  then show ?case by (simp add: max_count_def)
next
  case (Suc t)
  let ?st = "\<lparr>numberOfTries = min (Suc t) max_count, evaluations = t\<rparr>"
  have inc: "increment (numberOfTries ?st) = min (Suc (Suc t)) max_count"
    by (simp add: increment_min)
  then have "increment (numberOfTries ?st) \<le> max_count" by simp
  with assms have "\<not> js_gt (Fin (real (increment (numberOfTries ?st)))) cfs" by blast
  from npv_ok[OF this, of A cs "r t"] show ?case
    unfolding inc using Suc by simp
qed

text \<open>
  The first half of C10 fails as stated: under the cap \<open>2^53\<close> more than
  \<open>2^53 - 1\<close> evaluations complete. On the series \<open>[10, -1]\<close> the first loop never
  ends, and the first \<open>2^53\<close> calls that it makes of \<open>npv\<close> leave the counter at
  \<open>2^53\<close>, which is not above the cap, with \<open>2^53\<close> evaluations made.
\<close>

theorem IRR_cap_outrun:
  "fold (\<lambda>i st. snd (npv ideal (Fin (2 ^ 53)) [10, - 1] (rate_up ideal (Fin 1) i) st))
     [0 ..< 2 ^ 53] \<lparr>numberOfTries = 1, evaluations = 0\<rparr>
     = \<lparr>numberOfTries = 2 ^ 53, evaluations = 2 ^ 53\<rparr>
   \<and> IRR_run ideal (Fin (2 ^ 53)) [10, - 1] = None"
proof
  have "min (Suc max_count) max_count = max_count" by simp
  with npv_calls[OF cap_never_reached(3), of ideal "[10, - 1]" "rate_up ideal (Fin 1)" max_count]
  have "fold (\<lambda>i st. snd (npv ideal (Fin (2 ^ 53)) [10, - 1] (rate_up ideal (Fin 1) i) st))
     [0 ..< max_count] \<lparr>numberOfTries = 1, evaluations = 0\<rparr>
     = \<lparr>numberOfTries = max_count, evaluations = max_count\<rparr>"
    by (simp only:)
  then show "fold (\<lambda>i st. snd (npv ideal (Fin (2 ^ 53)) [10, - 1] (rate_up ideal (Fin 1) i) st))
     [0 ..< 2 ^ 53] \<lparr>numberOfTries = 1, evaluations = 0\<rparr>
     = \<lparr>numberOfTries = 2 ^ 53, evaluations = 2 ^ 53\<rparr>"
    unfolding max_count_def .
  show "IRR_run ideal (Fin (2 ^ 53)) [10, - 1] = None"
    by (rule IRR_run_unbounded[OF cap_never_reached(3)])
qed

lemma js_le_one_gt_two: "js_le cfs (Fin 1) \<Longrightarrow> js_gt (Fin (real (Suc (Suc 0)))) cfs"
  by (cases cfs) simp_all

lemma ascend_npv_throw:
  assumes "js_gt (Fin (real (increment (numberOfTries st)))) cfs"
  shows "ascend A (npv A cfs cashFlows) x st
         = Some (Inl (Error IRR_tries_message), st\<lparr>numberOfTries := increment (numberOfTries st)\<rparr>)"
  by (subst ascend.simps) (simp add: npv_throw[OF assms])

text \<open>
  C10, amended to a finite cap below \<open>2^53\<close>. The counter starts at 1 and each call of
  \<open>npv\<close> increments and tests it before it computes anything, so under such a cap
  \<open>maxTries\<close> every call of IRR ends, in every arithmetic, with at most
  \<open>maxTries - 1\<close> evaluations made (none when that is below zero). And whatever the
  cap, a series with a positive and a negative value and a cap \<open>maxTries <= 1\<close> always
  fails with ConvergenceFailure in the first call, with no evaluation made.
\<close>

theorem IRR_evaluations_bound:
  "(m < 2 ^ 53 \<longrightarrow>
      (\<exists>res st. IRR_run A (Fin m) cashFlows = Some (res, st)
                \<and> real (evaluations st) \<le> max 0 (m - 1)))
   \<and> ((\<exists>v\<in>set cashFlows. 0 < v) \<and> (\<exists>v\<in>set cashFlows. v < 0) \<and> js_le cfs (Fin 1) \<longrightarrow>
        IRR_run A cfs cashFlows
          = Some (Inl (Error IRR_tries_message), \<lparr>numberOfTries = 2, evaluations = 0\<rparr>)
        \<and> ConvergenceFailure (Error IRR_tries_message))"
proof (intro conjI impI)
  assume m: "m < 2 ^ 53"
  from IRR_run_terminates[OF m] obtain res st
    where run: "IRR_run A (Fin m) cashFlows = Some (res, st)" by blast
  have "real (evaluations st) \<le> max 0 (m - 1)"
  proof (cases "(\<exists>v\<in>set cashFlows. 0 < v) \<and> (\<exists>v\<in>set cashFlows. v < 0)")
    case False
    then have "\<not> (\<exists>v\<in>set cashFlows. 0 < v) \<or> \<not> (\<exists>v\<in>set cashFlows. v < 0)" by blast
    from IRR_run_invalid[OF this, of A "Fin m"] run show ?thesis by simp
  next
    case True
    then have pos: "\<exists>v\<in>set cashFlows. 0 < v" and neg: "\<exists>v\<in>set cashFlows. v < 0" by blast+
    note inv = IRR_run_state[OF pos neg run]
    have "evaluations st = 0
        \<or> \<not> js_gt (Fin (real (min (Suc (evaluations st)) max_count))) (Fin m)"
    proof (cases res)
      case (Inl e)
      with inv show ?thesis by (simp add: exhausted_def)
    next
      case (Inr v)
      with inv show ?thesis by (auto simp: counting_def)
    qed
    then show ?thesis
    proof
      assume "evaluations st = 0"
      then show ?thesis by simp
    next
      assume "\<not> js_gt (Fin (real (min (Suc (evaluations st)) max_count))) (Fin m)"
      from counting_below[OF m this] show ?thesis by simp
    qed
  qed
  with run show "\<exists>res st. IRR_run A (Fin m) cashFlows = Some (res, st)
      \<and> real (evaluations st) \<le> max 0 (m - 1)" by blast
next
  assume a: "(\<exists>v\<in>set cashFlows. 0 < v) \<and> (\<exists>v\<in>set cashFlows. v < 0) \<and> js_le cfs (Fin 1)"
  let ?st0 = "\<lparr>numberOfTries = 1, evaluations = 0\<rparr>"
  from a have gt: "js_gt (Fin (real (increment (numberOfTries ?st0)))) cfs"
    using js_le_one_gt_two[of cfs] by (simp add: increment_def max_count_def)
  have "ascend A (npv A cfs cashFlows) (Fin 1) ?st0
      = Some (Inl (Error IRR_tries_message), \<lparr>numberOfTries = 2, evaluations = 0\<rparr>)"
    using ascend_npv_throw[OF gt, of A cashFlows "Fin 1"] by (simp add: increment_def max_count_def)
  then have "seekZero A (npv A cfs cashFlows) ?st0
      = Some (Inl (Error IRR_tries_message), \<lparr>numberOfTries = 2, evaluations = 0\<rparr>)"
    by (simp add: seekZero_def)
  with a show "IRR_run A cfs cashFlows
      = Some (Inl (Error IRR_tries_message), \<lparr>numberOfTries = 2, evaluations = 0\<rparr>)"
    by (simp add: IRR_run_valid)
next
  show "ConvergenceFailure (Error IRR_tries_message)" by (simp add: ConvergenceFailure_def)
qed

theorem IRR_evaluations_bound_witness:
  "IRR_run ideal (Fin 1) [- 10, 1]
     = Some (Inl (Error IRR_tries_message), \<lparr>numberOfTries = 2, evaluations = 0\<rparr>)
   \<and> IRR_run ideal NegInf [- 10, 1]
     = Some (Inl (Error IRR_tries_message), \<lparr>numberOfTries = 2, evaluations = 0\<rparr>)
   \<and> (\<exists>res st. IRR_run ideal (Fin 3) [- 10, 1] = Some (res, st)
                \<and> real (evaluations st) \<le> max 0 (3 - 1))"
proof -
  have one: "IRR_run ideal (Fin 1) [- 10, 1]
     = Some (Inl (Error IRR_tries_message), \<lparr>numberOfTries = 2, evaluations = 0\<rparr>)"
    using IRR_evaluations_bound[of 1 ideal "[- 10, 1]" "Fin 1"] by simp
  have two: "IRR_run ideal NegInf [- 10, 1]
     = Some (Inl (Error IRR_tries_message), \<lparr>numberOfTries = 2, evaluations = 0\<rparr>)"
    using IRR_evaluations_bound[of 1 ideal "[- 10, 1]" NegInf] by simp
  have three: "\<exists>res st. IRR_run ideal (Fin 3) [- 10, 1] = Some (res, st)
      \<and> real (evaluations st) \<le> max 0 (3 - 1)"
    using IRR_evaluations_bound[of 3 ideal "[- 10, 1]" "Fin 1"] by simp
  from one two three show ?thesis by blast
qed

section \<open>The path of the search\<close>

lemma rate_up_shift: "rate_up A (fadd A x (Fin 1)) i = rate_up A x (Suc i)"
  by (induction i) simp_all

lemma rate_down_shift: "rate_down A (fsub A x cent) i = rate_down A x (Suc i)"
  by (induction i) simp_all

lemma rate_up_ideal: "rate_up ideal (Fin x) i = Fin (x + real i)"
  by (induction i) simp_all

lemma rate_down_ideal:
  "rate_down ideal (Fin x) i = Fin (x - real i * (5764607523034235 / 2 ^ 59))"
  by (induction i) (simp_all add: cent_def algebra_simps)

text \<open>
  What a loop that ends normally has gone through: \<open>F\<close> is the value that \<open>fn\<close>
  returns at a rate and \<open>c\<close> a count that every returning call increments.
\<close>

lemma ascend_path:
  assumes "ascend A fn x s = Some y"
  shows "(\<forall>x s v s'. fn x s = (Inr v, s') \<longrightarrow> v = F x \<and> c s' = Suc (c s)) \<longrightarrow>
         (\<forall>x' s'. y = (Inr x', s') \<longrightarrow>
            (\<exists>k. x' = rate_up A x k \<and> (\<forall>i<k. js_gt (F (rate_up A x i)) (Fin 0))
                 \<and> \<not> js_gt (F x') (Fin 0) \<and> c s' = c s + Suc k))"
  using assms
proof (induction rule: ascend_induct)
  case (step asc A fn x s y)
  show ?case
  proof (intro impI allI)
    fix x' sy
    assume F: "\<forall>x s v s'. fn x s = (Inr v, s') \<longrightarrow> v = F x \<and> c s' = Suc (c s)"
      and y: "y = (Inr x', sy)"
    obtain r s' where fn: "fn x s = (r, s')" by (cases "fn x s")
    from step(2) fn y obtain v where r: "r = Inr v" by (cases r) auto
    have v: "v = F x" and cs: "c s' = Suc (c s)" using F fn r by blast+
    show "\<exists>k. x' = rate_up A x k \<and> (\<forall>i<k. js_gt (F (rate_up A x i)) (Fin 0))
              \<and> \<not> js_gt (F x') (Fin 0) \<and> c sy = c s + Suc k"
    proof (cases "js_gt v (Fin 0)")
      case True
      with fn r step(2) have rec: "asc A fn (fadd A x (Fin 1)) s' = Some y" by simp
      from step(1)[OF rec] F y
      obtain k where k: "x' = rate_up A (fadd A x (Fin 1)) k"
        "\<forall>i<k. js_gt (F (rate_up A (fadd A x (Fin 1)) i)) (Fin 0)"
        "\<not> js_gt (F x') (Fin 0)" "c sy = c s' + Suc k"
        by blast
      have "\<forall>i<Suc k. js_gt (F (rate_up A x i)) (Fin 0)"
      proof (intro allI impI)
        fix i assume i: "i < Suc k"
        show "js_gt (F (rate_up A x i)) (Fin 0)"
        proof (cases i)
          case 0 then show ?thesis using True v by simp
        next
          case (Suc l)
          with i k(2) have "js_gt (F (rate_up A (fadd A x (Fin 1)) l)) (Fin 0)" by simp
          then show ?thesis unfolding rate_up_shift Suc .
        qed
      qed
      moreover have "x' = rate_up A x (Suc k)" using k(1) unfolding rate_up_shift .
      moreover have "c sy = c s + Suc (Suc k)" using k(4) cs by simp
      ultimately show ?thesis using k(3) by blast
    next
      case False
      with fn r step(2) y have "x' = x" "sy = s'" by simp_all
      then show ?thesis using False v cs by (intro exI[of _ 0]) simp
    qed
  qed
qed

lemma descend_path:
  assumes "descend A fn x s = Some y"
  shows "(\<forall>x s v s'. fn x s = (Inr v, s') \<longrightarrow> v = F x \<and> c s' = Suc (c s)) \<longrightarrow>
         (\<forall>x' s'. y = (Inr x', s') \<longrightarrow>
            (\<exists>j. x' = rate_down A x j \<and> (\<forall>i<j. js_lt (F (rate_down A x i)) (Fin 0))
                 \<and> \<not> js_lt (F x') (Fin 0) \<and> c s' = c s + Suc j))"
  using assms
proof (induction rule: descend_induct)
  case (step dsc A fn x s y)
  show ?case
  proof (intro impI allI)
    fix x' sy
    assume F: "\<forall>x s v s'. fn x s = (Inr v, s') \<longrightarrow> v = F x \<and> c s' = Suc (c s)"
      and y: "y = (Inr x', sy)"
    obtain r s' where fn: "fn x s = (r, s')" by (cases "fn x s")
    from step(2) fn y obtain v where r: "r = Inr v" by (cases r) auto
    have v: "v = F x" and cs: "c s' = Suc (c s)" using F fn r by blast+
    show "\<exists>j. x' = rate_down A x j \<and> (\<forall>i<j. js_lt (F (rate_down A x i)) (Fin 0))
              \<and> \<not> js_lt (F x') (Fin 0) \<and> c sy = c s + Suc j"
    proof (cases "js_lt v (Fin 0)")
      case True
      with fn r step(2) have rec: "dsc A fn (fsub A x cent) s' = Some y" by simp
      from step(1)[OF rec] F y
      obtain j where j: "x' = rate_down A (fsub A x cent) j"
        "\<forall>i<j. js_lt (F (rate_down A (fsub A x cent) i)) (Fin 0)"
        "\<not> js_lt (F x') (Fin 0)" "c sy = c s' + Suc j"
        by blast
      have "\<forall>i<Suc j. js_lt (F (rate_down A x i)) (Fin 0)"
      proof (intro allI impI)
        fix i assume i: "i < Suc j"
        show "js_lt (F (rate_down A x i)) (Fin 0)"
        proof (cases i)
          case 0 then show ?thesis using True v by simp
        next
          case (Suc l)
          with i j(2) have "js_lt (F (rate_down A (fsub A x cent) l)) (Fin 0)" by simp
          then show ?thesis unfolding rate_down_shift Suc .
        qed
      qed
      moreover have "x' = rate_down A x (Suc j)" using j(1) unfolding rate_down_shift .
      moreover have "c sy = c s + Suc (Suc j)" using j(4) cs by simp
      ultimately show ?thesis using j(3) by blast
    next
      case False
      with fn r step(2) y have "x' = x" "sy = s'" by simp_all
      then show ?thesis using False v cs by (intro exI[of _ 0]) simp
    qed
  qed
qed

lemma npv_path_premise:
  "\<forall>x s v s'. npv A cfs cs x s = (Inr v, s') \<longrightarrow>
     v = npv_sum A cs x \<and> evaluations s' = Suc (evaluations s)"
  using npv_Inr_value by blast

text \<open>A successful run of IRR: its path, its result and what it has counted.\<close>

lemma IRR_run_success:
  assumes "IRR_run A cfs cashFlows = Some (Inr r, st)"
  shows "\<exists>k j. ascent A cashFlows k \<and> descent A cashFlows (rate_up A (Fin 1) k) j
           \<and> r = fdiv A (Math_round
                    (fmul A (fadd A (rate_down A (rate_up A (Fin 1) k) j) cent) (Fin 100)))
                  (Fin 100)
           \<and> evaluations st = k + j + 2
           \<and> \<not> js_gt (Fin (real (min (k + j + 3) max_count))) cfs"
proof -
  have valid: "(\<exists>v\<in>set cashFlows. 0 < v) \<and> (\<exists>v\<in>set cashFlows. v < 0)"
  proof (rule ccontr)
    assume "\<not> ?thesis"
    then have "\<not> (\<exists>v\<in>set cashFlows. 0 < v) \<or> \<not> (\<exists>v\<in>set cashFlows. v < 0)" by blast
    from IRR_run_invalid[OF this, of A cfs] assms show False by simp
  qed
  then have pos: "\<exists>v\<in>set cashFlows. 0 < v" and neg: "\<exists>v\<in>set cashFlows. v < 0" by blast+
  from IRR_run_state[OF pos neg assms]
  have c: "counting cfs st" "0 < evaluations st" by simp_all
  from pos neg assms show ?thesis
  proof (cases rule: IRR_run_seekZero)
    case (returns x)
    from returns(1) show ?thesis
    proof (cases rule: seekZero_cases)
      case (returns x1 s1 x2)
      from ascend_path[OF returns(1), of "npv_sum A cashFlows" evaluations] npv_path_premise
      obtain k where k: "x1 = rate_up A (Fin 1) k"
        "\<forall>i<k. js_gt (npv_sum A cashFlows (rate_up A (Fin 1) i)) (Fin 0)"
        "\<not> js_gt (npv_sum A cashFlows x1) (Fin 0)" "evaluations s1 = Suc k"
        by fastforce
      from descend_path[OF returns(2), of "npv_sum A cashFlows" evaluations] npv_path_premise
      obtain j where j: "x2 = rate_down A x1 j"
        "\<forall>i<j. js_lt (npv_sum A cashFlows (rate_down A x1 i)) (Fin 0)"
        "\<not> js_lt (npv_sum A cashFlows x2) (Fin 0)" "evaluations st = evaluations s1 + Suc j"
        by fastforce
      have ev: "evaluations st = k + j + 2" using k(4) j(4) by simp
      have "ascent A cashFlows k" using k by (simp add: ascent_def)
      moreover have "descent A cashFlows (rate_up A (Fin 1) k) j"
        using j k(1) by (simp add: descent_def)
      moreover have "r = fdiv A (Math_round
            (fmul A (fadd A (rate_down A (rate_up A (Fin 1) k) j) cent) (Fin 100))) (Fin 100)"
        using \<open>Inr r = Inr (fdiv A (Math_round (fmul A x (Fin 100))) (Fin 100))\<close>
          returns(3) j(1) k(1) by simp
      moreover have "\<not> js_gt (Fin (real (min (k + j + 3) max_count))) cfs"
      proof -
        from c have "\<not> js_gt (Fin (real (numberOfTries st))) cfs"
          "numberOfTries st = min (Suc (evaluations st)) max_count"
          by (auto simp: counting_def)
        moreover have "Suc (evaluations st) = k + j + 3" using ev by simp
        ultimately show ?thesis by simp
      qed
      ultimately show ?thesis using ev by blast
    qed simp_all
  qed simp
qed

section \<open>Runs built from their path\<close>

lemma pass_earlier:
  assumes "\<not> js_gt (Fin (real (min b max_count))) cfs" and "a \<le> b"
  shows "\<not> js_gt (Fin (real (min a max_count))) cfs"
proof
  assume "js_gt (Fin (real (min a max_count))) cfs"
  moreover have "real (min a max_count) \<le> real (min b max_count)" using assms(2) by simp
  ultimately have "js_gt (Fin (real (min b max_count))) cfs" by (rule js_gt_mono)
  with assms(1) show False by simp
qed

lemma ascend_npv_continue:
  assumes "\<not> js_gt (Fin (real (min (Suc a) max_count))) cfs"
    and "js_gt (npv_sum A cs x) (Fin 0)"
  shows "ascend A (npv A cfs cs) x \<lparr>numberOfTries = min a max_count, evaluations = e\<rparr>
         = ascend A (npv A cfs cs) (fadd A x (Fin 1))
             \<lparr>numberOfTries = min (Suc a) max_count, evaluations = Suc e\<rparr>"
  by (subst ascend.simps) (use assms in \<open>simp add: npv_def Let_def increment_min\<close>)

lemma ascend_npv_stop:
  assumes "\<not> js_gt (Fin (real (min (Suc a) max_count))) cfs"
    and "\<not> js_gt (npv_sum A cs x) (Fin 0)"
  shows "ascend A (npv A cfs cs) x \<lparr>numberOfTries = min a max_count, evaluations = e\<rparr>
         = Some (Inr x, \<lparr>numberOfTries = min (Suc a) max_count, evaluations = Suc e\<rparr>)"
  by (subst ascend.simps) (use assms in \<open>simp add: npv_def Let_def increment_min\<close>)

lemma descend_npv_continue:
  assumes "\<not> js_gt (Fin (real (min (Suc a) max_count))) cfs"
    and "js_lt (npv_sum A cs x) (Fin 0)"
  shows "descend A (npv A cfs cs) x \<lparr>numberOfTries = min a max_count, evaluations = e\<rparr>
         = descend A (npv A cfs cs) (fsub A x cent)
             \<lparr>numberOfTries = min (Suc a) max_count, evaluations = Suc e\<rparr>"
  by (subst descend.simps) (use assms in \<open>simp add: npv_def Let_def increment_min\<close>)

lemma descend_npv_stop:
  assumes "\<not> js_gt (Fin (real (min (Suc a) max_count))) cfs"
    and "\<not> js_lt (npv_sum A cs x) (Fin 0)"
  shows "descend A (npv A cfs cs) x \<lparr>numberOfTries = min a max_count, evaluations = e\<rparr>
         = Some (Inr x, \<lparr>numberOfTries = min (Suc a) max_count, evaluations = Suc e\<rparr>)"
  by (subst descend.simps) (use assms in \<open>simp add: npv_def Let_def increment_min\<close>)

lemma descend_npv_fail:
  assumes "js_gt (Fin (real (min (Suc a) max_count))) cfs"
  shows "descend A (npv A cfs cs) x \<lparr>numberOfTries = min a max_count, evaluations = e\<rparr>
         = Some (Inl (Error IRR_tries_message),
                 \<lparr>numberOfTries = min (Suc a) max_count, evaluations = e\<rparr>)"
  by (subst descend.simps) (use assms in \<open>simp add: npv_def Let_def increment_min\<close>)

text \<open>The first \<open>k\<close> iterations of a loop, when the counter lets them through.\<close>

lemma ascend_npv_steps:
  assumes "\<forall>i<k. js_gt (npv_sum A cs (rate_up A x i)) (Fin 0)"
    and "\<not> js_gt (Fin (real (min (a + k) max_count))) cfs"
  shows "ascend A (npv A cfs cs) x \<lparr>numberOfTries = min a max_count, evaluations = e\<rparr>
         = ascend A (npv A cfs cs) (rate_up A x k)
             \<lparr>numberOfTries = min (a + k) max_count, evaluations = e + k\<rparr>"
  using assms
proof (induction k arbitrary: x a e)
  case 0
  then show ?case by simp
next
  case (Suc k)
  have first: "\<not> js_gt (Fin (real (min (Suc a) max_count))) cfs"
    by (rule pass_earlier[OF Suc.prems(2)]) simp
  have pos: "js_gt (npv_sum A cs x) (Fin 0)" using Suc.prems(1) by force
  have rest: "\<forall>i<k. js_gt (npv_sum A cs (rate_up A (fadd A x (Fin 1)) i)) (Fin 0)"
  proof (intro allI impI)
    fix i assume "i < k"
    then have "Suc i < Suc k" by simp
    with Suc.prems(1) have "js_gt (npv_sum A cs (rate_up A x (Suc i))) (Fin 0)" by blast
    then show "js_gt (npv_sum A cs (rate_up A (fadd A x (Fin 1)) i)) (Fin 0)"
      unfolding rate_up_shift .
  qed
  have cap: "\<not> js_gt (Fin (real (min (Suc a + k) max_count))) cfs"
    using Suc.prems(2) by simp
  show ?case
    unfolding ascend_npv_continue[OF first pos] Suc.IH[OF rest cap] rate_up_shift by simp
qed

lemma descend_npv_steps:
  assumes "\<forall>i<j. js_lt (npv_sum A cs (rate_down A x i)) (Fin 0)"
    and "\<not> js_gt (Fin (real (min (a + j) max_count))) cfs"
  shows "descend A (npv A cfs cs) x \<lparr>numberOfTries = min a max_count, evaluations = e\<rparr>
         = descend A (npv A cfs cs) (rate_down A x j)
             \<lparr>numberOfTries = min (a + j) max_count, evaluations = e + j\<rparr>"
  using assms
proof (induction j arbitrary: x a e)
  case 0
  then show ?case by simp
next
  case (Suc j)
  have first: "\<not> js_gt (Fin (real (min (Suc a) max_count))) cfs"
    by (rule pass_earlier[OF Suc.prems(2)]) simp
  have neg: "js_lt (npv_sum A cs x) (Fin 0)" using Suc.prems(1) by force
  have rest: "\<forall>i<j. js_lt (npv_sum A cs (rate_down A (fsub A x cent) i)) (Fin 0)"
  proof (intro allI impI)
    fix i assume "i < j"
    then have "Suc i < Suc j" by simp
    with Suc.prems(1) have "js_lt (npv_sum A cs (rate_down A x (Suc i))) (Fin 0)" by blast
    then show "js_lt (npv_sum A cs (rate_down A (fsub A x cent) i)) (Fin 0)"
      unfolding rate_down_shift .
  qed
  have cap: "\<not> js_gt (Fin (real (min (Suc a + j) max_count))) cfs"
    using Suc.prems(2) by simp
  show ?case
    unfolding descend_npv_continue[OF first neg] Suc.IH[OF rest cap] rate_down_shift by simp
qed

lemma initial_state: "\<lparr>numberOfTries = 1, evaluations = 0\<rparr>
    = \<lparr>numberOfTries = min 1 max_count, evaluations = 0\<rparr>"
  by (simp add: max_count_def)

lemma ascend_ascent:
  assumes "ascent A cs k" and "\<not> js_gt (Fin (real (min (k + 2) max_count))) cfs"
  shows "ascend A (npv A cfs cs) (Fin 1) \<lparr>numberOfTries = 1, evaluations = 0\<rparr>
         = Some (Inr (rate_up A (Fin 1) k),
                 \<lparr>numberOfTries = min (k + 2) max_count, evaluations = Suc k\<rparr>)"
proof -
  from assms(1) have up: "\<forall>i<k. js_gt (npv_sum A cs (rate_up A (Fin 1) i)) (Fin 0)"
    and top: "\<not> js_gt (npv_sum A cs (rate_up A (Fin 1) k)) (Fin 0)"
    by (simp_all add: ascent_def)
  have p1: "\<not> js_gt (Fin (real (min (1 + k) max_count))) cfs"
    by (rule pass_earlier[OF assms(2)]) simp
  have p2: "\<not> js_gt (Fin (real (min (Suc (1 + k)) max_count))) cfs"
    using assms(2) by simp
  show ?thesis
    unfolding initial_state ascend_npv_steps[OF up p1] ascend_npv_stop[OF p2 top] by simp
qed

lemma descend_descent:
  assumes "descent A cs x j" and "\<not> js_gt (Fin (real (min (a + j + 1) max_count))) cfs"
  shows "descend A (npv A cfs cs) x \<lparr>numberOfTries = min a max_count, evaluations = e\<rparr>
         = Some (Inr (rate_down A x j),
                 \<lparr>numberOfTries = min (a + j + 1) max_count, evaluations = e + j + 1\<rparr>)"
proof -
  from assms(1) have down: "\<forall>i<j. js_lt (npv_sum A cs (rate_down A x i)) (Fin 0)"
    and bottom: "\<not> js_lt (npv_sum A cs (rate_down A x j)) (Fin 0)"
    by (simp_all add: descent_def)
  have p1: "\<not> js_gt (Fin (real (min (a + j) max_count))) cfs"
    by (rule pass_earlier[OF assms(2)]) simp
  have p2: "\<not> js_gt (Fin (real (min (Suc (a + j)) max_count))) cfs"
    using assms(2) by simp
  show ?thesis
    unfolding descend_npv_steps[OF down p1] descend_npv_stop[OF p2 bottom] by simp
qed

lemma IRR_run_returns:
  assumes "\<exists>v\<in>set cashFlows. 0 < v" "\<exists>v\<in>set cashFlows. v < 0"
    and "ascent A cashFlows k" and "descent A cashFlows (rate_up A (Fin 1) k) j"
    and "\<not> js_gt (Fin (real (min (k + j + 3) max_count))) cfs"
  shows "IRR_run A cfs cashFlows
         = Some (Inr (fdiv A (Math_round
                    (fmul A (fadd A (rate_down A (rate_up A (Fin 1) k) j) cent) (Fin 100)))
                  (Fin 100)),
                 \<lparr>numberOfTries = min (k + j + 3) max_count, evaluations = k + j + 2\<rparr>)"
proof -
  have e: "k + 2 + j + 1 = k + j + 3" "Suc k + j + 1 = k + j + 2" by simp_all
  have p1: "\<not> js_gt (Fin (real (min (k + 2) max_count))) cfs"
    by (rule pass_earlier[OF assms(5)]) simp
  have p2: "\<not> js_gt (Fin (real (min (k + 2 + j + 1) max_count))) cfs"
    unfolding e by (rule assms(5))
  note a = ascend_ascent[OF assms(3) p1]
  note d = descend_descent[OF assms(4) p2, of "Suc k", unfolded e]
  have "seekZero A (npv A cfs cashFlows) \<lparr>numberOfTries = 1, evaluations = 0\<rparr>
      = Some (Inr (fadd A (rate_down A (rate_up A (Fin 1) k) j) cent),
              \<lparr>numberOfTries = min (k + j + 3) max_count, evaluations = k + j + 2\<rparr>)"
    unfolding seekZero_def a using d by simp
  then show ?thesis by (simp add: IRR_run_valid[OF assms(1,2)])
qed

lemma IRR_run_fails_in_descent:
  assumes "\<exists>v\<in>set cashFlows. 0 < v" "\<exists>v\<in>set cashFlows. v < 0"
    and "ascent A cashFlows k"
    and "\<forall>i<j. js_lt (npv_sum A cashFlows (rate_down A (rate_up A (Fin 1) k) i)) (Fin 0)"
    and "\<not> js_gt (Fin (real (min (k + j + 2) max_count))) cfs"
    and "js_gt (Fin (real (min (k + j + 3) max_count))) cfs"
  shows "IRR_run A cfs cashFlows
         = Some (Inl (Error IRR_tries_message),
                 \<lparr>numberOfTries = min (k + j + 3) max_count, evaluations = k + j + 1\<rparr>)"
proof -
  have e: "k + 2 + j = k + j + 2" "Suc (k + j + 2) = k + j + 3" "Suc k + j = k + j + 1"
    by simp_all
  have p1: "\<not> js_gt (Fin (real (min (k + 2) max_count))) cfs"
    by (rule pass_earlier[OF assms(5)]) simp
  have p2: "\<not> js_gt (Fin (real (min (k + 2 + j) max_count))) cfs"
    unfolding e by (rule assms(5))
  have p3: "js_gt (Fin (real (min (Suc (k + j + 2)) max_count))) cfs"
    unfolding e by (rule assms(6))
  note a = ascend_ascent[OF assms(3) p1]
  note d = descend_npv_steps[OF assms(4) p2, of "Suc k", unfolded e]
  note f = descend_npv_fail[OF p3, of A cashFlows "rate_down A (rate_up A (Fin 1) k) j" "k + j + 1",
      unfolded e]
  have dd: "descend A (npv A cfs cashFlows) (rate_up A (Fin 1) k)
        \<lparr>numberOfTries = min (k + 2) max_count, evaluations = Suc k\<rparr>
      = Some (Inl (Error IRR_tries_message),
              \<lparr>numberOfTries = min (k + j + 3) max_count, evaluations = k + j + 1\<rparr>)"
    unfolding d f ..
  have "seekZero A (npv A cfs cashFlows) \<lparr>numberOfTries = 1, evaluations = 0\<rparr>
      = Some (Inl (Error IRR_tries_message),
              \<lparr>numberOfTries = min (k + j + 3) max_count, evaluations = k + j + 1\<rparr>)"
    unfolding seekZero_def a using dd by simp
  then show ?thesis by (simp add: IRR_run_valid[OF assms(1,2)])
qed

section \<open>Two runs in the ideal arithmetic\<close>

text \<open>
  The series \<open>[-10, 1]\<close>: the value at the rate 1 is negative, so the ascent has no
  step and the descent at least one.
\<close>

lemma example_short:
  "ascent ideal [- 10, 1] 0"
  "\<forall>i<1. js_lt (npv_sum ideal [- 10, 1] (rate_down ideal (rate_up ideal (Fin 1) 0) i)) (Fin 0)"
  by (simp_all add: ascent_def npv_sum_two js_lt_def)

text \<open>
  The series \<open>[-200000, 205970]\<close>, whose value is zero at the rate 2.985: the ascent
  goes from 1 to 3 in two steps and the descent from 3 to 2.98 in two steps.
\<close>

lemma example_long:
  "ascent ideal [- 200000, 205970] 2"
  "descent ideal [- 200000, 205970] (rate_up ideal (Fin 1) 2) 2"
  by (simp_all add: ascent_def descent_def rate_up_ideal rate_down_ideal npv_sum_two js_lt_def
      All_less_Suc eval_nat_numeral cent_def)

lemma example_valid:
  "\<exists>v\<in>set [- 10, 1 :: real]. 0 < v" "\<exists>v\<in>set [- 10, 1 :: real]. v < 0"
  "\<exists>v\<in>set [- 200000, 205970 :: real]. 0 < v" "\<exists>v\<in>set [- 200000, 205970 :: real]. v < 0"
  by simp_all


section \<open>The cap in the second loop\<close>

text \<open>
  C2 fails as stated. With a cap of 3 and the series \<open>[-10, 1]\<close> the first loop ends
  normally at rate 1 after one evaluation; the second loop then makes one evaluation, and
  its next call finds the counter at 4 and fails with ConvergenceFailure.
\<close>

theorem IRR_fails_in_descent:
  "ascend ideal (npv ideal (Fin 3) [- 10, 1]) (Fin 1) \<lparr>numberOfTries = 1, evaluations = 0\<rparr>
     = Some (Inr (Fin 1), \<lparr>numberOfTries = 2, evaluations = 1\<rparr>)
   \<and> descend ideal (npv ideal (Fin 3) [- 10, 1]) (Fin 1) \<lparr>numberOfTries = 2, evaluations = 1\<rparr>
     = Some (Inl (Error IRR_tries_message), \<lparr>numberOfTries = 4, evaluations = 2\<rparr>)
   \<and> IRR ideal (Fin 3) [- 10, 1] = Some (Inl (Error IRR_tries_message))
   \<and> ConvergenceFailure (Error IRR_tries_message)"
proof -
  let ?fn = "npv ideal (Fin 3) [- 10, 1]"
  have m: "min 1 max_count = 1" "min 2 max_count = 2" "min 3 max_count = 3"
    "min (Suc 1) max_count = 2" "min (Suc 2) max_count = 3" "min (Suc 3) max_count = 4"
    by (simp_all add: max_count_def)
  have e: "Suc 0 = 1" "Suc 1 = 2" by simp_all
  have v: "\<not> js_gt (npv_sum ideal [- 10, 1] (Fin 1)) (Fin 0)"
    "js_lt (npv_sum ideal [- 10, 1] (Fin 1)) (Fin 0)"
    by (simp_all add: npv_sum_two js_lt_def)
  have a: "ascend ideal ?fn (Fin 1) \<lparr>numberOfTries = 1, evaluations = 0\<rparr>
      = Some (Inr (Fin 1), \<lparr>numberOfTries = 2, evaluations = 1\<rparr>)"
    by (rule ascend_npv_stop[of 1 "Fin 3" ideal "[- 10, 1]" "Fin 1" 0, unfolded m e])
      (simp_all add: v)
  have d1: "descend ideal ?fn (Fin 1) \<lparr>numberOfTries = 2, evaluations = 1\<rparr>
      = descend ideal ?fn (fsub ideal (Fin 1) cent) \<lparr>numberOfTries = 3, evaluations = 2\<rparr>"
    by (rule descend_npv_continue[of 2 "Fin 3" ideal "[- 10, 1]" "Fin 1" 1, unfolded m e])
      (simp_all add: v)
  have d2: "descend ideal ?fn (fsub ideal (Fin 1) cent) \<lparr>numberOfTries = 3, evaluations = 2\<rparr>
      = Some (Inl (Error IRR_tries_message), \<lparr>numberOfTries = 4, evaluations = 2\<rparr>)"
    by (rule descend_npv_fail[of 3 "Fin 3" ideal "[- 10, 1]" "fsub ideal (Fin 1) cent" 2,
          unfolded m])
      simp
  have d: "descend ideal ?fn (Fin 1) \<lparr>numberOfTries = 2, evaluations = 1\<rparr>
      = Some (Inl (Error IRR_tries_message), \<lparr>numberOfTries = 4, evaluations = 2\<rparr>)"
    unfolding d1 d2 ..
  have "seekZero ideal ?fn \<lparr>numberOfTries = 1, evaluations = 0\<rparr>
      = Some (Inl (Error IRR_tries_message), \<lparr>numberOfTries = 4, evaluations = 2\<rparr>)"
    unfolding seekZero_def a using d by simp
  then have "IRR ideal (Fin 3) [- 10, 1] = Some (Inl (Error IRR_tries_message))"
    by (simp add: IRR_def IRR_run_valid[OF example_valid(1,2)])
  with a d show ?thesis by (simp add: ConvergenceFailure_def)
qed

text \<open>
  C2, amended. The cap applies to the evaluations of both loops together: one counter
  counts the calls of \<open>npv\<close> from the first loop and from the second. For a finite cap
  \<open>maxTries\<close> below \<open>2^53\<close>, on a series with a positive and a negative value and in
  every arithmetic:
  \<^item> if IRR returns a value, its ascent of \<open>k\<close> steps and its descent of \<open>j\<close> steps, which
    make \<open>k + 1\<close> and \<open>j + 1\<close> evaluations, have fitted together into the
    \<open>maxTries - 1\<close> evaluations that the cap allows;
  \<^item> conversely, if they fit, IRR returns a value;
  \<^item> if the ascent ends and the descent is still going down after \<open>j\<close> evaluations, and
    these fit but one more evaluation does not, IRR fails with ConvergenceFailure in the
    descent, with \<open>k + 1 + j\<close> evaluations made.
\<close>

theorem cap_spans_both_phases:
  assumes "\<exists>v\<in>set cashFlows. 0 < v" and "\<exists>v\<in>set cashFlows. v < 0" and "m < 2 ^ 53"
  shows "(\<forall>r. IRR A (Fin m) cashFlows = Some (Inr r) \<longrightarrow>
            (\<exists>k j. ascent A cashFlows k \<and> descent A cashFlows (rate_up A (Fin 1) k) j
                   \<and> real (k + 1) + real (j + 1) \<le> m - 1))
         \<and> (\<forall>k j. ascent A cashFlows k \<and> descent A cashFlows (rate_up A (Fin 1) k) j
                   \<and> real (k + 1) + real (j + 1) \<le> m - 1 \<longrightarrow>
               (\<exists>r. IRR A (Fin m) cashFlows = Some (Inr r)))
         \<and> (\<forall>k j. ascent A cashFlows k
                   \<and> (\<forall>i<j. js_lt (npv_sum A cashFlows (rate_down A (rate_up A (Fin 1) k) i))
                               (Fin 0))
                   \<and> real (k + 1) + real j \<le> m - 1 \<and> m - 1 < real (k + 1) + real (j + 1) \<longrightarrow>
               IRR_run A (Fin m) cashFlows
                 = Some (Inl (Error IRR_tries_message),
                         \<lparr>numberOfTries = k + j + 3, evaluations = k + 1 + j\<rparr>)
               \<and> ConvergenceFailure (Error IRR_tries_message))"
proof (intro conjI allI impI)
  fix r assume "IRR A (Fin m) cashFlows = Some (Inr r)"
  then obtain st where "IRR_run A (Fin m) cashFlows = Some (Inr r, st)"
    by (auto simp: IRR_def)
  from IRR_run_success[OF this] obtain k j
    where p: "ascent A cashFlows k" "descent A cashFlows (rate_up A (Fin 1) k) j"
      and cap: "\<not> js_gt (Fin (real (min (k + j + 3) max_count))) (Fin m)"
    by blast
  have "k + j + 3 = Suc (k + j + 2)" by simp
  with cap have "\<not> js_gt (Fin (real (min (Suc (k + j + 2)) max_count))) (Fin m)" by simp
  from counting_below[OF assms(3) this] have "real (k + 1) + real (j + 1) \<le> m - 1" by simp
  with p show "\<exists>k j. ascent A cashFlows k \<and> descent A cashFlows (rate_up A (Fin 1) k) j
      \<and> real (k + 1) + real (j + 1) \<le> m - 1"
    by blast
next
  fix k j
  assume a: "ascent A cashFlows k \<and> descent A cashFlows (rate_up A (Fin 1) k) j
      \<and> real (k + 1) + real (j + 1) \<le> m - 1"
  then have le: "real (k + j + 3) \<le> m" by simp
  then have "real (min (k + j + 3) max_count) \<le> m" by (simp add: min_def)
  then have cap: "\<not> js_gt (Fin (real (min (k + j + 3) max_count))) (Fin m)" by simp
  from IRR_run_returns[OF assms(1,2) _ _ cap] a
  show "\<exists>r. IRR A (Fin m) cashFlows = Some (Inr r)" by (simp add: IRR_def)
next
  fix k j
  assume a: "ascent A cashFlows k
      \<and> (\<forall>i<j. js_lt (npv_sum A cashFlows (rate_down A (rate_up A (Fin 1) k) i)) (Fin 0))
      \<and> real (k + 1) + real j \<le> m - 1 \<and> m - 1 < real (k + 1) + real (j + 1)"
  then have le: "real (k + j + 2) \<le> m" and gt: "m < real (k + j + 3)" by simp_all
  from le have "real (min (k + j + 2) max_count) \<le> m" by (simp add: min_def)
  then have p: "\<not> js_gt (Fin (real (min (k + j + 2) max_count))) (Fin m)" by simp
  have "real (k + j + 2) < real max_count" using le assms(3) by (simp add: max_count_real)
  then have "k + j + 3 \<le> max_count" by simp
  then have mn: "min (k + j + 3) max_count = k + j + 3" by simp
  with gt have f: "js_gt (Fin (real (min (k + j + 3) max_count))) (Fin m)" by simp
  from IRR_run_fails_in_descent[OF assms(1,2) _ _ p f] a
  show "IRR_run A (Fin m) cashFlows
      = Some (Inl (Error IRR_tries_message),
              \<lparr>numberOfTries = k + j + 3, evaluations = k + 1 + j\<rparr>)"
    by (simp add: mn)
next
  show "ConvergenceFailure (Error IRR_tries_message)" by (simp add: ConvergenceFailure_def)
qed

theorem cap_spans_both_phases_witness:
  "IRR_run ideal (Fin 3) [- 10, 1]
     = Some (Inl (Error IRR_tries_message), \<lparr>numberOfTries = 4, evaluations = 2\<rparr>)
   \<and> IRR_run ideal (Fin 6) [- 200000, 205970]
     = Some (Inl (Error IRR_tries_message), \<lparr>numberOfTries = 7, evaluations = 5\<rparr>)
   \<and> (\<exists>r. IRR ideal (Fin 7) [- 200000, 205970] = Some (Inr r))"
proof -
  have down: "\<forall>i<2. js_lt (npv_sum ideal [- 200000, 205970]
      (rate_down ideal (rate_up ideal (Fin 1) 2) i)) (Fin 0)"
    using example_long(2) by (simp add: descent_def)
  have small: "(3::real) < 2 ^ 53" "(6::real) < 2 ^ 53" "(7::real) < 2 ^ 53" by simp_all
  from cap_spans_both_phases[OF example_valid(1,2) small(1), of ideal]
  have "ascent ideal [- 10, 1] 0
      \<and> (\<forall>i<1. js_lt (npv_sum ideal [- 10, 1] (rate_down ideal (rate_up ideal (Fin 1) 0) i))
                  (Fin 0))
      \<and> real (0 + 1) + real (1::nat) \<le> 3 - 1 \<and> (3::real) - 1 < real (0 + 1) + real (1 + 1) \<longrightarrow>
      IRR_run ideal (Fin 3) [- 10, 1]
        = Some (Inl (Error IRR_tries_message), \<lparr>numberOfTries = 0 + 1 + 3, evaluations = 0 + 1 + 1\<rparr>)"
    by blast
  with example_short have one: "IRR_run ideal (Fin 3) [- 10, 1]
     = Some (Inl (Error IRR_tries_message), \<lparr>numberOfTries = 4, evaluations = 2\<rparr>)"
    by simp
  from cap_spans_both_phases[OF example_valid(3,4) small(2), of ideal]
  have "ascent ideal [- 200000, 205970] 2
      \<and> (\<forall>i<2. js_lt (npv_sum ideal [- 200000, 205970]
                    (rate_down ideal (rate_up ideal (Fin 1) 2) i)) (Fin 0))
      \<and> real (2 + 1) + real (2::nat) \<le> 6 - 1 \<and> (6::real) - 1 < real (2 + 1) + real (2 + 1) \<longrightarrow>
      IRR_run ideal (Fin 6) [- 200000, 205970]
        = Some (Inl (Error IRR_tries_message), \<lparr>numberOfTries = 2 + 2 + 3, evaluations = 2 + 1 + 2\<rparr>)"
    by blast
  with example_long(1) down have two: "IRR_run ideal (Fin 6) [- 200000, 205970]
     = Some (Inl (Error IRR_tries_message), \<lparr>numberOfTries = 7, evaluations = 5\<rparr>)"
    by simp
  from cap_spans_both_phases[OF example_valid(3,4) small(3), of ideal]
  have "ascent ideal [- 200000, 205970] 2
      \<and> descent ideal [- 200000, 205970] (rate_up ideal (Fin 1) 2) 2
      \<and> real (2 + 1) + real (2 + 1) \<le> (7::real) - 1 \<longrightarrow>
      (\<exists>r. IRR ideal (Fin 7) [- 200000, 205970] = Some (Inr r))"
    by blast
  with example_long have three: "\<exists>r. IRR ideal (Fin 7) [- 200000, 205970] = Some (Inr r)"
    by simp
  from one two three show ?thesis by blast
qed

section \<open>The search of IRR\<close>





section \<open>The Newton step of XIRR\<close>

lemma ideal_pow_real:
  assumes "b \<noteq> 0" and "0 < b \<or> of_int \<lfloor>e\<rfloor> = e"
  shows "ideal_pow (Fin b) (Fin e) = Fin (real_pow b e)"
proof (cases "e = 0")
  case True
  then show ?thesis using assms(1) by (simp add: real_pow_def)
next
  case False
  then show ?thesis using assms by (auto simp: real_pow_def)
qed

lemma real_pow_nonzero: "b \<noteq> 0 \<Longrightarrow> real_pow b e \<noteq> 0"
  by (simp add: real_pow_def)

lemma neg_mul_ideal: "ideal_mul (ideal_mul (js_neg (Fin c)) (Fin d)) (Fin p) = Fin (- c * d * p)"
  by simp

lemma sum_fx_fold:
  assumes "b \<noteq> 0" and "0 < b \<or> (\<forall>i<n. of_int \<lfloor>ds ! i\<rfloor> = ds ! i)"
    and "n \<le> length cfs" and "n \<le> length ds"
  shows "fold (\<lambda>i sum_fx.
                 ideal_add sum_fx
                   (ideal_div (item cfs i) (ideal_pow (Fin b) (entry (map Fin ds) i))))
              [0 ..< n] (Fin acc)
         = Fin (acc + (\<Sum>i = 0 ..< n. cfs ! i / real_pow b (ds ! i)))"
  using assms(2,3,4)
proof (induction n)
  case 0
  then show ?case by simp
next
  case (Suc n)
  have items: "item cfs n = Fin (cfs ! n)" "entry (map Fin ds) n = Fin (ds ! n)"
    using Suc.prems by (simp_all add: item_def entry_def)
  have "0 < b \<or> of_int \<lfloor>ds ! n\<rfloor> = ds ! n" using Suc.prems(1) by (metis lessI)
  note pw = ideal_pow_real[OF assms(1) this]
  have IH: "fold (\<lambda>i sum_fx.
                 ideal_add sum_fx
                   (ideal_div (item cfs i) (ideal_pow (Fin b) (entry (map Fin ds) i))))
              [0 ..< n] (Fin acc)
         = Fin (acc + (\<Sum>i = 0 ..< n. cfs ! i / real_pow b (ds ! i)))"
    using Suc by auto
  show ?case
    using real_pow_nonzero[OF assms(1), of "ds ! n"]
    by (simp add: IH items pw del: ideal_pow.simps)
qed

lemma sum_fdx_fold:
  assumes "b \<noteq> 0" and "0 < b \<or> (\<forall>i<n. of_int \<lfloor>ds ! i\<rfloor> = ds ! i)"
    and "n \<le> length cfs" and "n \<le> length ds"
  shows "fold (\<lambda>i sum_fdx.
                 ideal_add sum_fdx
                   (ideal_mul (ideal_mul (js_neg (item cfs i)) (entry (map Fin ds) i))
                      (ideal_pow (Fin b) (fsub ideal (Fin (- 1)) (entry (map Fin ds) i)))))
              [0 ..< n] (Fin acc)
         = Fin (acc + (\<Sum>i = 0 ..< n. - cfs ! i * ds ! i * real_pow b (- 1 - ds ! i)))"
  using assms(2,3,4)
proof (induction n)
  case 0
  then show ?case by simp
next
  case (Suc n)
  have items: "item cfs n = Fin (cfs ! n)" "entry (map Fin ds) n = Fin (ds ! n)"
    using Suc.prems by (simp_all add: item_def entry_def)
  have "0 < b \<or> of_int \<lfloor>- 1 - ds ! n\<rfloor> = - 1 - ds ! n"
  proof (cases "0 < b")
    case True
    then show ?thesis by simp
  next
    case False
    with Suc.prems(1) have "of_int \<lfloor>ds ! n\<rfloor> = ds ! n" by (metis lessI)
    then obtain z :: int where z: "ds ! n = of_int z" by metis
    have "- 1 - ds ! n = of_int (- 1 - z)" unfolding z by simp
    then have "of_int \<lfloor>- 1 - ds ! n\<rfloor> = - 1 - ds ! n" by (metis floor_of_int)
    then show ?thesis by (rule disjI2)
  qed
  note pw = ideal_pow_real[OF assms(1) this]
  have IH: "fold (\<lambda>i sum_fdx.
                 ideal_add sum_fdx
                   (ideal_mul (ideal_mul (js_neg (item cfs i)) (entry (map Fin ds) i))
                      (ideal_pow (Fin b) (fsub ideal (Fin (- 1)) (entry (map Fin ds) i)))))
              [0 ..< n] (Fin acc)
         = Fin (acc + (\<Sum>i = 0 ..< n. - cfs ! i * ds ! i * real_pow b (- 1 - ds ! i)))"
    using Suc by auto
  show ?case
    by (simp add: IH items pw neg_mul_ideal del: ideal_pow.simps ideal_mul.simps js_neg.simps)
qed

lemma sumEq_finite:
  assumes "length ds = length cfs" and "1 + g \<noteq> 0"
    and "0 < 1 + g \<or> (\<forall>i<length cfs. of_int \<lfloor>ds ! i\<rfloor> = ds ! i)"
    and "(\<Sum>i = 0 ..< length cfs. - cfs ! i * ds ! i * real_pow (1 + g) (- 1 - ds ! i)) \<noteq> 0"
  shows "sumEq ideal cfs (map Fin ds) (Fin g)
         = Fin ((\<Sum>i = 0 ..< length cfs. cfs ! i / real_pow (1 + g) (ds ! i))
                / (\<Sum>i = 0 ..< length cfs. - cfs ! i * ds ! i * real_pow (1 + g) (- 1 - ds ! i)))"
  using assms(1,4)
  by (simp add: sumEq_def sum_fx_fold[OF assms(2,3)] sum_fdx_fold[OF assms(2,3)]
      del: ideal_pow.simps ideal_mul.simps js_neg.simps)

lemma XIRR_step_finite:
  assumes "length ds = length cfs" and "1 + g \<noteq> 0"
    and "0 < 1 + g \<or> (\<forall>i<length cfs. of_int \<lfloor>ds ! i\<rfloor> = ds ! i)"
    and "(\<Sum>i = 0 ..< length cfs. - cfs ! i * ds ! i * real_pow (1 + g) (- 1 - ds ! i)) \<noteq> 0"
  shows "XIRR_step ideal cfs (map Fin ds) (Fin g)
         = Fin (g - (\<Sum>i = 0 ..< length cfs. cfs ! i / real_pow (1 + g) (ds ! i))
                    / (\<Sum>i = 0 ..< length cfs. - cfs ! i * ds ! i * real_pow (1 + g) (- 1 - ds ! i)))"
  by (simp add: XIRR_step_def sumEq_finite[OF assms])

lemma XIRR_loop_continue:
  assumes "toFixed 5 guess \<noteq> toFixed 5 (XIRR_step A cashFlows durs guess)" and "1 < limit"
  shows "XIRR_loop A cashFlows durs guess limit
         = XIRR_loop A cashFlows durs (XIRR_step A cashFlows durs guess) (limit - 1)"
  using assms
  by (subst XIRR_loop.simps[of A cashFlows durs guess limit]) (simp add: Let_def XIRR_step_def)

lemma XIRR_loop_stop:
  assumes "toFixed 5 guess = toFixed 5 (XIRR_step A cashFlows durs guess) \<or> limit \<le> 1"
  shows "XIRR_loop A cashFlows durs guess limit
         = (guess, XIRR_step A cashFlows durs guess, limit - 1)"
  using assms
  by (subst XIRR_loop.simps[of A cashFlows durs guess limit]) (auto simp: Let_def XIRR_step_def)

lemma funpow_shift: "(f ^^ n) (f x) = (f ^^ Suc n) x"
  by (simp only: funpow_Suc_right o_apply)

lemma XIRR_loop_iterates:
  "1 \<le> limit \<Longrightarrow>
    \<exists>K. 1 \<le> K \<and> int K \<le> limit
      \<and> XIRR_loop A cashFlows durs guess limit
          = ((XIRR_step A cashFlows durs ^^ (K - 1)) guess,
             (XIRR_step A cashFlows durs ^^ K) guess, limit - int K)
      \<and> (\<forall>k. 1 \<le> k \<and> k < K \<longrightarrow>
             toFixed 5 ((XIRR_step A cashFlows durs ^^ (k - 1)) guess)
               \<noteq> toFixed 5 ((XIRR_step A cashFlows durs ^^ k) guess))
      \<and> (toFixed 5 ((XIRR_step A cashFlows durs ^^ (K - 1)) guess)
            = toFixed 5 ((XIRR_step A cashFlows durs ^^ K) guess) \<or> int K = limit)"
proof (induction "nat limit" arbitrary: limit guess)
  case 0
  then show ?case by simp
next
  case (Suc m)
  let ?s = "XIRR_step A cashFlows durs"
  show ?case
  proof (cases "toFixed 5 guess \<noteq> toFixed 5 (?s guess) \<and> 1 < limit")
    case True
    have m: "m = nat (limit - 1)" using Suc.hyps(2) by simp
    have lim: "1 \<le> limit - 1" using True by simp
    from Suc.hyps(1)[OF m lim, of "?s guess"]
    obtain K where K1: "1 \<le> K" and K2: "int K \<le> limit - 1"
      and K3: "XIRR_loop A cashFlows durs (?s guess) (limit - 1)
         = ((?s ^^ (K - 1)) (?s guess), (?s ^^ K) (?s guess), limit - 1 - int K)"
      and K4: "\<forall>k. 1 \<le> k \<and> k < K \<longrightarrow>
             toFixed 5 ((?s ^^ (k - 1)) (?s guess)) \<noteq> toFixed 5 ((?s ^^ k) (?s guess))"
      and K5: "toFixed 5 ((?s ^^ (K - 1)) (?s guess)) = toFixed 5 ((?s ^^ K) (?s guess))
        \<or> int K = limit - 1"
      by (elim exE conjE)
    have SK: "Suc (K - 1) = K" using K1 by simp
    have a: "(?s ^^ (K - 1)) (?s guess) = (?s ^^ (Suc K - 1)) guess"
      using funpow_shift[of "K - 1" ?s guess] unfolding SK diff_Suc_1 .
    have b: "(?s ^^ K) (?s guess) = (?s ^^ Suc K) guess"
      by (rule funpow_shift)
    have loop: "XIRR_loop A cashFlows durs guess limit
        = ((?s ^^ (Suc K - 1)) guess, (?s ^^ Suc K) guess, limit - int (Suc K))"
      unfolding XIRR_loop_continue[OF conjunct1[OF True] conjunct2[OF True]] K3 a b by simp
    have before: "\<forall>k. 1 \<le> k \<and> k < Suc K \<longrightarrow>
        toFixed 5 ((?s ^^ (k - 1)) guess) \<noteq> toFixed 5 ((?s ^^ k) guess)"
    proof (intro allI impI)
      fix k assume k: "1 \<le> k \<and> k < Suc K"
      show "toFixed 5 ((?s ^^ (k - 1)) guess) \<noteq> toFixed 5 ((?s ^^ k) guess)"
      proof (cases "k = 1")
        case True
        with \<open>toFixed 5 guess \<noteq> toFixed 5 (?s guess) \<and> 1 < limit\<close> show ?thesis by simp
      next
        case False
        with k have k': "1 \<le> k - 1 \<and> k - 1 < K" by auto
        have Sk: "Suc (k - 1) = k" "Suc (k - 1 - 1) = k - 1" using k' by arith+
        have c: "(?s ^^ (k - 1 - 1)) (?s guess) = (?s ^^ (k - 1)) guess"
          using funpow_shift[of "k - 1 - 1" ?s guess] unfolding Sk .
        have d: "(?s ^^ (k - 1)) (?s guess) = (?s ^^ k) guess"
          using funpow_shift[of "k - 1" ?s guess] unfolding Sk .
        from K4[rule_format, OF k'] show ?thesis unfolding c d .
      qed
    qed
    have last: "toFixed 5 ((?s ^^ (Suc K - 1)) guess) = toFixed 5 ((?s ^^ Suc K) guess)
        \<or> int (Suc K) = limit"
      using K5 unfolding a b by auto
    have "1 \<le> Suc K" "int (Suc K) \<le> limit" using K2 by simp_all
    then show ?thesis using loop before last by (intro exI[of _ "Suc K"] conjI)
  next
    case False
    then have stop: "toFixed 5 guess = toFixed 5 (?s guess) \<or> limit \<le> 1" by auto
    have loop: "XIRR_loop A cashFlows durs guess limit
        = ((?s ^^ (1 - 1)) guess, (?s ^^ 1) guess, limit - int 1)"
      unfolding XIRR_loop_stop[OF stop] by simp
    have last: "toFixed 5 ((?s ^^ (1 - 1)) guess) = toFixed 5 ((?s ^^ 1) guess) \<or> int 1 = limit"
      using stop Suc.prems by auto
    have before: "\<forall>k. 1 \<le> k \<and> k < (1::nat) \<longrightarrow>
        toFixed 5 ((?s ^^ (k - 1)) guess) \<noteq> toFixed 5 ((?s ^^ k) guess)"
      by simp
    have "(1::nat) \<le> 1" "int 1 \<le> limit" using Suc.prems by simp_all
    then show ?thesis using loop before last by (intro exI[of _ 1] conjI)
  qed
qed

lemma XIRR_loop_last:
  "XIRR_loop A cashFlows durs guess limit = (a, b, l) \<Longrightarrow>
   b = XIRR_step A cashFlows durs a \<and> (\<exists>n. a = (XIRR_step A cashFlows durs ^^ n) guess)"
proof (induction A cashFlows durs guess limit rule: XIRR_loop.induct)
  case (1 A cashFlows durs guess limit)
  let ?step = "XIRR_step A cashFlows durs"
  show ?case
  proof (cases "toFixed 5 guess \<noteq> toFixed 5 (?step guess) \<and> 1 < limit")
    case True
    then have c: "toFixed 5 guess \<noteq> toFixed 5 (fsub A guess (sumEq A cashFlows durs guess))
        \<and> 0 < limit - 1"
      by (simp add: XIRR_step_def)
    from "1.prems"[unfolded XIRR_loop_continue[OF conjunct1[OF True] conjunct2[OF True]]]
    have "XIRR_loop A cashFlows durs (fsub A guess (sumEq A cashFlows durs guess)) (limit - 1)
        = (a, b, l)"
      by (simp add: XIRR_step_def)
    from "1.IH"[OF refl refl refl c this]
    obtain n where b: "b = ?step a" and n: "a = (?step ^^ n) (?step guess)"
      unfolding XIRR_step_def[symmetric] by blast
    from n have "a = (?step ^^ Suc n) guess" by (simp only: funpow_shift)
    with b show ?thesis by blast
  next
    case False
    then have "toFixed 5 guess = toFixed 5 (?step guess) \<or> limit \<le> 1" by auto
    from "1.prems"[unfolded XIRR_loop_stop[OF this]]
    have eq: "guess = a" "?step guess = b" by blast+
    have "b = ?step a" unfolding eq(1)[symmetric] using eq(2) by simp
    moreover have "a = (?step ^^ 0) guess" using eq(1) by simp
    ultimately show ?thesis by blast
  qed
qed

lemma truthy_iff: "truthy g \<longleftrightarrow> \<not> (g = Fin 0 \<or> g = NegZero \<or> g = NaN)"
  by (cases g) simp_all

lemma XIRR_valid:
  assumes "length cashFlows = length dates"
    and "\<exists>v\<in>set cashFlows. 0 < v" and "\<exists>v\<in>set cashFlows. v < 0"
  shows "XIRR A cashFlows dates guess
         = Inr (case XIRR_loop A cashFlows (durations A dates)
                       (if truthy guess then guess else Fin 0) 100 of
                  (guess_last, guess1, limit) \<Rightarrow>
                    if toFixed 5 guess_last \<noteq> toFixed 5 guess1 then None
                    else Some (fdiv A (Math_round (fmul A (fmul A guess1 (Fin 100)) (Fin 100)))
                                 (Fin 100)))"
  using assms by (simp add: XIRR_def scan_signs_eq Let_def split: prod.splits)

lemma durations_ideal:
  "durations ideal dates
   = map Fin (0 # map (\<lambda>i. \<bar>real_of_int (dates ! i) - real_of_int (dates ! 0)\<bar>
                             / (1000 * 3600 * 24 * 365)) [1 ..< length dates])"
  by (simp add: durations_def durYear_ideal)

text \<open>
  C7. Each iteration of XIRR replaces the current guess by
  \<open>current - sumEq(cashFlows, durs, current)\<close>, which \<open>XIRR_step\<close> names. In the
  ideal arithmetic, and wherever the two sums below are real numbers and the second is
  not zero, that is the Newton step \<open>current - f(current) / f'(current)\<close> with
  \<open>f(rate) = \<Sum> cashFlows[i] / (1 + rate)^durs[i]\<close> and
  \<open>f'(rate) = \<Sum> - cashFlows[i] * durs[i] * (1 + rate)^(-1 - durs[i])\<close>: for
  \<open>1 + current\<close> positive, and for \<open>1 + current\<close> negative when the durations are
  whole numbers of years. In every arithmetic, the two guesses the loop ends with are
  one step apart, and the earlier one is reached from the seed by such steps. The seed is
  \<open>guess\<close>, unless \<open>guess\<close> is a zero or \<open>NaN\<close>: then it is 0. The durations of the
  ideal arithmetic are real numbers, one for each date.
\<close>

theorem XIRR_newton_step:
  fixes cashFlows durs :: "real list" and g :: real
  defines "f \<equiv> \<lambda>rate. \<Sum>i = 0 ..< length cashFlows.
                  cashFlows ! i / real_pow (1 + rate) (durs ! i)"
    and "f' \<equiv> \<lambda>rate. \<Sum>i = 0 ..< length cashFlows.
                   - cashFlows ! i * durs ! i * real_pow (1 + rate) (- 1 - durs ! i)"
  shows "(length durs = length cashFlows \<and> 1 + g \<noteq> 0
            \<and> (1 + g < 0 \<longrightarrow> (\<forall>i<length cashFlows. of_int \<lfloor>durs ! i\<rfloor> = durs ! i))
            \<and> f' g \<noteq> 0 \<longrightarrow>
            XIRR_step ideal cashFlows (map Fin durs) (Fin g) = Fin (g - f g / f' g))
         \<and> (XIRR_loop A cashFlows ds guess0 limit = (guess_last, guess1, limit1) \<longrightarrow>
              guess1 = XIRR_step A cashFlows ds guess_last
              \<and> (\<exists>n. guess_last = (XIRR_step A cashFlows ds ^^ n) guess0))
         \<and> (length cashFlows = length dates
              \<and> (\<exists>v\<in>set cashFlows. 0 < v) \<and> (\<exists>v\<in>set cashFlows. v < 0) \<longrightarrow>
              XIRR A cashFlows dates guess
              = Inr (case XIRR_loop A cashFlows (durations A dates)
                            (if guess = Fin 0 \<or> guess = NegZero \<or> guess = NaN then Fin 0
                             else guess) 100 of
                       (guess_last, guess1, limit) \<Rightarrow>
                         if toFixed 5 guess_last \<noteq> toFixed 5 guess1 then None
                         else Some (fdiv A (Math_round (fmul A (fmul A guess1 (Fin 100)) (Fin 100)))
                                      (Fin 100)))
              \<and> (\<exists>ys. durations ideal dates = map Fin ys \<and> length ys = length cashFlows))"
proof (intro conjI impI)
  assume a: "length durs = length cashFlows \<and> 1 + g \<noteq> 0
      \<and> (1 + g < 0 \<longrightarrow> (\<forall>i<length cashFlows. of_int \<lfloor>durs ! i\<rfloor> = durs ! i))
      \<and> f' g \<noteq> 0"
  then have "0 < 1 + g \<or> (\<forall>i<length cashFlows. of_int \<lfloor>durs ! i\<rfloor> = durs ! i)"
    by (cases "0 < 1 + g") auto
  with a show "XIRR_step ideal cashFlows (map Fin durs) (Fin g) = Fin (g - f g / f' g)"
    unfolding f_def f'_def by (intro XIRR_step_finite) simp_all
next
  assume "XIRR_loop A cashFlows ds guess0 limit = (guess_last, guess1, limit1)"
  from XIRR_loop_last[OF this]
  show "guess1 = XIRR_step A cashFlows ds guess_last"
    "\<exists>n. guess_last = (XIRR_step A cashFlows ds ^^ n) guess0"
    by blast+
next
  assume v: "length cashFlows = length dates
      \<and> (\<exists>v\<in>set cashFlows. 0 < v) \<and> (\<exists>v\<in>set cashFlows. v < 0)"
  have seed: "(if truthy guess then guess else Fin 0)
      = (if guess = Fin 0 \<or> guess = NegZero \<or> guess = NaN then Fin 0 else guess)"
    by (simp add: truthy_iff)
  from v show "XIRR A cashFlows dates guess
      = Inr (case XIRR_loop A cashFlows (durations A dates)
                    (if guess = Fin 0 \<or> guess = NegZero \<or> guess = NaN then Fin 0 else guess) 100 of
               (guess_last, guess1, limit) \<Rightarrow>
                 if toFixed 5 guess_last \<noteq> toFixed 5 guess1 then None
                 else Some (fdiv A (Math_round (fmul A (fmul A guess1 (Fin 100)) (Fin 100)))
                              (Fin 100)))"
    using XIRR_valid[of cashFlows dates A guess] unfolding seed by blast
  from v have "0 < length dates" by auto
  then have "length (0 # map (\<lambda>i. \<bar>real_of_int (dates ! i) - real_of_int (dates ! 0)\<bar>
      / (1000 * 3600 * 24 * 365)) [1 ..< length dates]) = length cashFlows"
    using v by simp
  with durations_ideal[of dates]
  show "\<exists>ys. durations ideal dates = map Fin ys \<and> length ys = length cashFlows" by blast
qed

section \<open>The iterations of XIRR\<close>

text \<open>
  C8. On valid input, and in every arithmetic, XIRR runs its loop body \<open>K\<close> times, with
  \<open>K\<close> between 1 and 100: at each earlier iteration the previous and the new guess
  differ in their \<open>toFixed(5)\<close> strings, and at the \<open>K\<close>-th they agree or \<open>K\<close> is 100.
  If the last two guesses still differ the result is \<open>null\<close>, returned and not thrown;
  otherwise it is \<open>Math.round(guess * 100 * 100) / 100\<close> for the last guess, where
  \<open>Math.round\<close> of a finite \<open>y\<close> is the integer \<open>\<lfloor>y + 1/2\<rfloor>\<close>. Two guesses below
  \<open>10^21\<close> in size agree in their \<open>toFixed(5)\<close> strings when both are negative or
  neither is, and the multiple of \<open>10^-5\<close> nearest to their size is the same.
\<close>

theorem XIRR_convergence:
  fixes A :: arith and cashFlows :: "real list" and dates :: "int list" and guess :: number
  defines "seed \<equiv> (if truthy guess then guess else Fin 0)"
  defines "iterate \<equiv> \<lambda>k. (XIRR_step A cashFlows (durations A dates) ^^ k) seed"
  assumes valid: "length cashFlows = length dates"
    "\<exists>v\<in>set cashFlows. 0 < v" "\<exists>v\<in>set cashFlows. v < 0"
  shows "(\<exists>K. 1 \<le> K \<and> K \<le> 100
           \<and> (\<forall>k. 1 \<le> k \<and> k < K \<longrightarrow> toFixed 5 (iterate (k - 1)) \<noteq> toFixed 5 (iterate k))
           \<and> (toFixed 5 (iterate (K - 1)) = toFixed 5 (iterate K) \<or> K = 100)
           \<and> XIRR A cashFlows dates guess
               = Inr (if toFixed 5 (iterate (K - 1)) = toFixed 5 (iterate K)
                      then Some (fdiv A (Math_round (fmul A (fmul A (iterate K) (Fin 100)) (Fin 100)))
                                   (Fin 100))
                      else None)
           \<and> (\<forall>y. fmul A (fmul A (iterate K) (Fin 100)) (Fin 100) = Fin y \<longrightarrow>
                 Math_round (fmul A (fmul A (iterate K) (Fin 100)) (Fin 100))
                 = (if - 1 / 2 \<le> y \<and> y < 0 then NegZero else Fin (of_int \<lfloor>y + 1 / 2\<rfloor>))))
         \<and> (\<forall>x y. \<bar>x\<bar> < 10 ^ 21 \<and> \<bar>y\<bar> < 10 ^ 21 \<longrightarrow>
                (toFixed 5 (Fin x) = toFixed 5 (Fin y))
                = ((x < 0) = (y < 0)
                   \<and> \<lfloor>\<bar>x\<bar> * 10 ^ 5 + 1 / 2\<rfloor> = \<lfloor>\<bar>y\<bar> * 10 ^ 5 + 1 / 2\<rfloor>))"
proof -
  from XIRR_loop_iterates[of 100 A cashFlows "durations A dates" seed]
  obtain K where K1: "1 \<le> K" and K2: "int K \<le> 100"
    and loop: "XIRR_loop A cashFlows (durations A dates) seed 100
          = (iterate (K - 1), iterate K, 100 - int K)"
    and before: "\<forall>k. 1 \<le> k \<and> k < K \<longrightarrow> toFixed 5 (iterate (k - 1)) \<noteq> toFixed 5 (iterate k)"
    and last: "toFixed 5 (iterate (K - 1)) = toFixed 5 (iterate K) \<or> int K = 100"
    unfolding iterate_def by auto
  have res: "XIRR A cashFlows dates guess
      = Inr (if toFixed 5 (iterate (K - 1)) = toFixed 5 (iterate K)
             then Some (fdiv A (Math_round (fmul A (fmul A (iterate K) (Fin 100)) (Fin 100)))
                          (Fin 100))
             else None)"
    unfolding XIRR_valid[OF valid] seed_def[symmetric] loop by simp
  have rnd: "\<forall>y. fmul A (fmul A (iterate K) (Fin 100)) (Fin 100) = Fin y \<longrightarrow>
      Math_round (fmul A (fmul A (iterate K) (Fin 100)) (Fin 100))
      = (if - 1 / 2 \<le> y \<and> y < 0 then NegZero else Fin (of_int \<lfloor>y + 1 / 2\<rfloor>))"
    by simp
  have "K \<le> 100" "toFixed 5 (iterate (K - 1)) = toFixed 5 (iterate K) \<or> K = 100"
    using K2 last by auto
  with K1 before res rnd have run: "\<exists>K. 1 \<le> K \<and> K \<le> 100
      \<and> (\<forall>k. 1 \<le> k \<and> k < K \<longrightarrow> toFixed 5 (iterate (k - 1)) \<noteq> toFixed 5 (iterate k))
      \<and> (toFixed 5 (iterate (K - 1)) = toFixed 5 (iterate K) \<or> K = 100)
      \<and> XIRR A cashFlows dates guess
          = Inr (if toFixed 5 (iterate (K - 1)) = toFixed 5 (iterate K)
                 then Some (fdiv A (Math_round (fmul A (fmul A (iterate K) (Fin 100)) (Fin 100)))
                              (Fin 100))
                 else None)
      \<and> (\<forall>y. fmul A (fmul A (iterate K) (Fin 100)) (Fin 100) = Fin y \<longrightarrow>
            Math_round (fmul A (fmul A (iterate K) (Fin 100)) (Fin 100))
            = (if - 1 / 2 \<le> y \<and> y < 0 then NegZero else Fin (of_int \<lfloor>y + 1 / 2\<rfloor>)))"
    by (intro exI[of _ K] conjI)
  have fixed: "\<forall>x y. \<bar>x\<bar> < 10 ^ 21 \<and> \<bar>y\<bar> < 10 ^ 21 \<longrightarrow>
      (toFixed 5 (Fin x) = toFixed 5 (Fin y))
      = ((x < 0) = (y < 0) \<and> \<lfloor>\<bar>x\<bar> * 10 ^ 5 + 1 / 2\<rfloor> = \<lfloor>\<bar>y\<bar> * 10 ^ 5 + 1 / 2\<rfloor>)"
  proof (intro allI impI)
    fix x y :: real
    assume small: "\<bar>x\<bar> < 10 ^ 21 \<and> \<bar>y\<bar> < 10 ^ 21"
    have nn: "0 \<le> \<lfloor>\<bar>z\<bar> * 10 ^ 5 + 1 / 2\<rfloor>" for z :: real by simp
    have "(nat \<lfloor>\<bar>x\<bar> * 10 ^ 5 + 1 / 2\<rfloor> = nat \<lfloor>\<bar>y\<bar> * 10 ^ 5 + 1 / 2\<rfloor>)
        = (\<lfloor>\<bar>x\<bar> * 10 ^ 5 + 1 / 2\<rfloor> = \<lfloor>\<bar>y\<bar> * 10 ^ 5 + 1 / 2\<rfloor>)"
      using nn[of x] nn[of y] by (simp only: eq_nat_nat_iff)
    with small
    show "(toFixed 5 (Fin x) = toFixed 5 (Fin y))
        = ((x < 0) = (y < 0) \<and> \<lfloor>\<bar>x\<bar> * 10 ^ 5 + 1 / 2\<rfloor> = \<lfloor>\<bar>y\<bar> * 10 ^ 5 + 1 / 2\<rfloor>)"
      by simp
  qed
  from run fixed show ?thesis by (rule conjI)
qed

text \<open>
  An investment of 100 that returns 110 one year later, in the ideal arithmetic: the
  guesses from 0 are \<open>1/11\<close>, \<open>133/1331\<close>, ... and the fourth agrees with the third
  to five decimals; from the guess 0.1 the first step stays at 0.1.
\<close>

lemma example_durations: "durations ideal [0, 31536000000] = [Fin 0, Fin 1]"
  by (simp add: durations_def durYear_ideal)

lemma example_step:
  assumes "0 < 1 + g"
  shows "XIRR_step ideal [- 100, 110] [Fin 0, Fin 1] (Fin g)
         = Fin (2 * (1 + g) - 10 / 11 * (1 + g) ^ 2 - 1)"
proof -
  have p: "(1 + g) powr (- 2) = 1 / (1 + g) ^ 2"
    using assms by (simp add: powr_minus divide_inverse)
  have nz: "(\<Sum>i = 0 ..< length [- 100, 110 :: real].
              - [- 100, 110] ! i * [0, 1] ! i * real_pow (1 + g) (- 1 - [0, 1] ! i)) \<noteq> 0"
    using assms by (simp add: sum.atLeast_Suc_lessThan real_pow_def)
  have ne: "1 + g \<noteq> 0" using assms by simp
  have "XIRR_step ideal [- 100, 110] (map Fin [0, 1]) (Fin g)
      = Fin (g - (\<Sum>i = 0 ..< length [- 100, 110 :: real].
                    [- 100, 110] ! i / real_pow (1 + g) ([0, 1] ! i))
                 / (\<Sum>i = 0 ..< length [- 100, 110 :: real].
                      - [- 100, 110] ! i * [0, 1] ! i * real_pow (1 + g) (- 1 - [0, 1] ! i)))"
    by (rule XIRR_step_finite[OF _ ne disjI1[OF assms] nz]) simp
  then have "XIRR_step ideal [- 100, 110] [Fin 0, Fin 1] (Fin g)
      = Fin (g - (- 100 + 110 / (1 + g)) / (- 110 / (1 + g) ^ 2))"
    using assms by (simp add: sum.atLeast_Suc_lessThan p real_pow_def)
  also have "g - (- 100 + 110 / (1 + g)) / (- 110 / (1 + g) ^ 2)
      = 2 * (1 + g) - 10 / 11 * (1 + g) ^ 2 - 1"
    using assms by (simp add: field_simps power2_eq_square)
  finally show ?thesis .
qed

lemma example_steps:
  "XIRR_step ideal [- 100, 110] [Fin 0, Fin 1] (Fin 0) = Fin (1 / 11)"
  "XIRR_step ideal [- 100, 110] [Fin 0, Fin 1] (Fin (1 / 11)) = Fin (133 / 1331)"
  "XIRR_step ideal [- 100, 110] [Fin 0, Fin 1] (Fin (133 / 1331)) = Fin (1948717 / 19487171)"
  "XIRR_step ideal [- 100, 110] [Fin 0, Fin 1] (Fin (1948717 / 19487171))
     = Fin (417724816941565 / 4177248169415651)"
  "XIRR_step ideal [- 100, 110] [Fin 0, Fin 1] (Fin (1 / 10)) = Fin (1 / 10)"
  by (simp_all add: example_step power2_eq_square)

lemma example_iterates:
  "(XIRR_step ideal [- 100, 110] [Fin 0, Fin 1] ^^ 0) (Fin 0) = Fin 0"
  "(XIRR_step ideal [- 100, 110] [Fin 0, Fin 1] ^^ 1) (Fin 0) = Fin (1 / 11)"
  "(XIRR_step ideal [- 100, 110] [Fin 0, Fin 1] ^^ 2) (Fin 0) = Fin (133 / 1331)"
  "(XIRR_step ideal [- 100, 110] [Fin 0, Fin 1] ^^ 3) (Fin 0) = Fin (1948717 / 19487171)"
  "(XIRR_step ideal [- 100, 110] [Fin 0, Fin 1] ^^ 4) (Fin 0)
     = Fin (417724816941565 / 4177248169415651)"
  by (simp_all add: eval_nat_numeral example_steps)

lemma example_fixed:
  "toFixed 5 (Fin 0) = Digits False 0"
  "toFixed 5 (Fin (1 / 11)) = Digits False 9091"
  "toFixed 5 (Fin (133 / 1331)) = Digits False 9992"
  "toFixed 5 (Fin (1948717 / 19487171)) = Digits False 10000"
  "toFixed 5 (Fin (417724816941565 / 4177248169415651)) = Digits False 10000"
  "toFixed 5 (Fin (1 / 10)) = Digits False 10000"
  by simp_all

lemma example_agreement:
  "toFixed 5 ((XIRR_step ideal [- 100, 110] [Fin 0, Fin 1] ^^ 0) (Fin 0))
     \<noteq> toFixed 5 ((XIRR_step ideal [- 100, 110] [Fin 0, Fin 1] ^^ 1) (Fin 0))"
  "toFixed 5 ((XIRR_step ideal [- 100, 110] [Fin 0, Fin 1] ^^ 1) (Fin 0))
     \<noteq> toFixed 5 ((XIRR_step ideal [- 100, 110] [Fin 0, Fin 1] ^^ 2) (Fin 0))"
  "toFixed 5 ((XIRR_step ideal [- 100, 110] [Fin 0, Fin 1] ^^ 2) (Fin 0))
     \<noteq> toFixed 5 ((XIRR_step ideal [- 100, 110] [Fin 0, Fin 1] ^^ 3) (Fin 0))"
  "toFixed 5 ((XIRR_step ideal [- 100, 110] [Fin 0, Fin 1] ^^ 3) (Fin 0))
     = toFixed 5 ((XIRR_step ideal [- 100, 110] [Fin 0, Fin 1] ^^ 4) (Fin 0))"
  unfolding example_iterates example_fixed by simp_all

theorem XIRR_convergence_witness:
  "XIRR ideal [- 100, 110] [0, 31536000000] (Fin 0) = Inr (Some (Fin 10))"
proof -
  let ?it = "\<lambda>k. (XIRR_step ideal [- 100, 110] [Fin 0, Fin 1] ^^ k) (Fin 0)"
  have h1: "length [- 100, 110 :: real] = length [0, 31536000000 :: int]" by simp
  have h2: "\<exists>v\<in>set [- 100, 110 :: real]. 0 < v" by simp
  have h3: "\<exists>v\<in>set [- 100, 110 :: real]. v < 0" by simp
  have seed: "(if truthy (Fin 0) then Fin 0 else Fin 0) = Fin 0" by simp
  note XIRR_convergence[where A = ideal and guess = "Fin 0", OF h1 h2 h3,
      unfolded example_durations seed, THEN conjunct1]
  then obtain K where K1: "1 \<le> K"
    and before: "\<forall>k. 1 \<le> k \<and> k < K \<longrightarrow> toFixed 5 (?it (k - 1)) \<noteq> toFixed 5 (?it k)"
    and last: "toFixed 5 (?it (K - 1)) = toFixed 5 (?it K) \<or> K = 100"
    and res: "XIRR ideal [- 100, 110] [0, 31536000000] (Fin 0)
          = Inr (if toFixed 5 (?it (K - 1)) = toFixed 5 (?it K)
                 then Some (fdiv ideal (Math_round (fmul ideal (fmul ideal (?it K) (Fin 100))
                              (Fin 100))) (Fin 100))
                 else None)"
    by blast
  have d: "(1::nat) - 1 = 0" "(2::nat) - 1 = 1" "(3::nat) - 1 = 2" "(4::nat) - 1 = 3" by simp_all
  have "K = 4"
  proof (rule ccontr)
    assume "K \<noteq> 4"
    then consider "K = 1" | "K = 2" | "K = 3" | "4 < K" using K1 by arith
    then show False
    proof cases
      case 1
      with last example_agreement(1) show False unfolding 1 d by simp
    next
      case 2
      with last example_agreement(2) show False unfolding 2 d by simp
    next
      case 3
      with last example_agreement(3) show False unfolding 3 d by simp
    next
      case 4
      with before[rule_format, of 4] example_agreement(4) show False unfolding d by simp
    qed
  qed
  from res show ?thesis
    unfolding \<open>K = 4\<close> d example_iterates example_fixed by simp
qed

lemma example_loop:
  "XIRR_loop ideal [- 100, 110] [Fin 0, Fin 1] (Fin 0) 100
   = (Fin (1948717 / 19487171), Fin (417724816941565 / 4177248169415651), 96)"
  "XIRR_loop ideal [- 100, 110] [Fin 0, Fin 1] (Fin (1 / 10)) 100 = (Fin (1 / 10), Fin (1 / 10), 99)"
proof -
  let ?c = "[- 100, 110] :: real list" and ?d = "[Fin 0, Fin 1]"
  have l4: "XIRR_loop ideal ?c ?d (Fin (1948717 / 19487171)) 97
      = (Fin (1948717 / 19487171), Fin (417724816941565 / 4177248169415651), 96)"
    using XIRR_loop_stop[of "Fin (1948717 / 19487171)" ideal ?c ?d 97]
    unfolding example_steps example_fixed by simp
  have l3: "XIRR_loop ideal ?c ?d (Fin (133 / 1331)) 98
      = XIRR_loop ideal ?c ?d (Fin (1948717 / 19487171)) 97"
    using XIRR_loop_continue[of "Fin (133 / 1331)" ideal ?c ?d 98]
    unfolding example_steps example_fixed by simp
  have l2: "XIRR_loop ideal ?c ?d (Fin (1 / 11)) 99 = XIRR_loop ideal ?c ?d (Fin (133 / 1331)) 98"
    using XIRR_loop_continue[of "Fin (1 / 11)" ideal ?c ?d 99]
    unfolding example_steps example_fixed by simp
  have l1: "XIRR_loop ideal ?c ?d (Fin 0) 100 = XIRR_loop ideal ?c ?d (Fin (1 / 11)) 99"
    using XIRR_loop_continue[of "Fin 0" ideal ?c ?d 100]
    unfolding example_steps example_fixed by simp
  show "XIRR_loop ideal ?c ?d (Fin 0) 100
      = (Fin (1948717 / 19487171), Fin (417724816941565 / 4177248169415651), 96)"
    unfolding l1 l2 l3 l4 ..
  show "XIRR_loop ideal ?c ?d (Fin (1 / 10)) 100 = (Fin (1 / 10), Fin (1 / 10), 99)"
    using XIRR_loop_stop[of "Fin (1 / 10)" ideal ?c ?d 100]
    unfolding example_steps example_fixed by simp
qed

theorem XIRR_newton_step_witness:
  "XIRR_step ideal [- 100, 110] (map Fin [0, 1]) (Fin 0) = Fin (0 - 10 / (- 110))
   \<and> XIRR_step ideal [- 1, 4] (map Fin [0, 1]) (Fin (- 3)) = Fin (- 3 - (- 3) / (- 1))
   \<and> XIRR ideal [- 100, 110] [0, 31536000000] (Fin (1 / 10)) = Inr (Some (Fin 10))
   \<and> XIRR_loop ideal [- 100, 110] (durations ideal [0, 31536000000]) (Fin (1 / 10)) 100
       = (Fin (1 / 10), Fin (1 / 10), 99)
   \<and> XIRR ideal [- 100, 110] [0, 31536000000] NaN = Inr (Some (Fin 10))
   \<and> XIRR_loop ideal [- 100, 110] (durations ideal [0, 31536000000]) (Fin 0) 100
       = (Fin (1948717 / 19487171), Fin (417724816941565 / 4177248169415651), 96)"
proof -
  have one: "XIRR_step ideal [- 100, 110] (map Fin [0, 1]) (Fin 0) = Fin (0 - 10 / (- 110))"
    using XIRR_newton_step[where durs = "[0, 1]" and cashFlows = "[- 100, 110]" and g = 0]
    by (simp add: sum.atLeast_Suc_lessThan real_pow_def)
  have two: "XIRR_step ideal [- 1, 4] (map Fin [0, 1]) (Fin (- 3)) = Fin (- 3 - (- 3) / (- 1))"
    using XIRR_newton_step[where durs = "[0, 1]" and cashFlows = "[- 1, 4]" and g = "- 3"]
    by (simp add: sum.atLeast_Suc_lessThan real_pow_def less_Suc_eq numeral_2_eq_2)
  have v: "length [- 100, 110 :: real] = length [0, 31536000000 :: int]
      \<and> (\<exists>v\<in>set [- 100, 110 :: real]. 0 < v) \<and> (\<exists>v\<in>set [- 100, 110 :: real]. v < 0)"
    by simp
  have "XIRR ideal [- 100, 110] [0, 31536000000] (Fin (1 / 10))
      = Inr (case XIRR_loop ideal [- 100, 110] (durations ideal [0, 31536000000])
                    (if Fin (1 / 10) = Fin 0 \<or> Fin (1 / 10) = NegZero \<or> Fin (1 / 10) = NaN
                     then Fin 0 else Fin (1 / 10)) 100 of
               (guess_last, guess1, limit) \<Rightarrow>
                 if toFixed 5 guess_last \<noteq> toFixed 5 guess1 then None
                 else Some (fdiv ideal (Math_round (fmul ideal (fmul ideal guess1 (Fin 100))
                              (Fin 100))) (Fin 100)))"
    using XIRR_newton_step[where cashFlows = "[- 100, 110]" and dates = "[0, 31536000000]"
        and guess = "Fin (1 / 10)" and A = ideal] v
    by blast
  also have "\<dots> = Inr (Some (Fin 10))"
    unfolding example_durations by (simp add: example_loop)
  finally have three: "XIRR ideal [- 100, 110] [0, 31536000000] (Fin (1 / 10))
      = Inr (Some (Fin 10))" .
  have "XIRR ideal [- 100, 110] [0, 31536000000] NaN
      = Inr (case XIRR_loop ideal [- 100, 110] (durations ideal [0, 31536000000])
                    (if NaN = Fin 0 \<or> NaN = NegZero \<or> NaN = NaN then Fin 0 else NaN) 100 of
               (guess_last, guess1, limit) \<Rightarrow>
                 if toFixed 5 guess_last \<noteq> toFixed 5 guess1 then None
                 else Some (fdiv ideal (Math_round (fmul ideal (fmul ideal guess1 (Fin 100))
                              (Fin 100))) (Fin 100)))"
    using XIRR_newton_step[where cashFlows = "[- 100, 110]" and dates = "[0, 31536000000]"
        and guess = NaN and A = ideal] v
    by blast
  also have "\<dots> = Inr (Some (Fin 10))"
    unfolding example_durations by (simp add: example_loop)
  finally have four: "XIRR ideal [- 100, 110] [0, 31536000000] NaN = Inr (Some (Fin 10))" .
  from one two three four example_loop show ?thesis
    unfolding example_durations by blast
qed

end
